theory Spec2Isabelle
  imports Main "HOL-Library.Sublist"
begin

section \<open>Overseer: the scheduler\<close>

subsection \<open>Data\<close>

text \<open>
  An Overlord as the scheduler sees it: \<open>overlord.ref\<close>, \<open>overlord.priority\<close> and
  \<open>overlord.colony.name\<close>. A Directive: \<open>directive.name\<close> and the values of
  \<open>directive.overlords\<close> in key order.
\<close>

record Overlord =
  o_ref :: string
  o_priority :: int
  o_colony :: string

record Directive =
  d_name :: string
  d_overlords :: "Overlord list"

text \<open>
  An error object: the two fields \<open>Overseer.try\<close> reads and writes. A thrown value is an error
  object or a value on which no property can be set: \<open>null\<close>, \<open>undefined\<close>, or a primitive (the
  sources are modules, hence strict code, where such an assignment throws a \<open>TypeError\<close>).
\<close>

record Exception =
  e_name :: string
  e_stack :: string

datatype Thrown = ErrorObject Exception | NonObject

text \<open>
  What leaves a method of the scheduler when it does not return: a thrown value on its way
  up, or the \<open>TypeError\<close> of the assignment \<open>e.name = ...\<close> in the catch block of \<open>try\<close>.
\<close>

datatype Escape = Propagated Thrown | NameWriteError

text \<open>The task methods the scheduler has entered, in order (a log kept beside the state).\<close>

datatype Call =
  DirectiveInit string
  | DirectiveRun string
  | OverlordPreInit string
  | OverlordInit string
  | OverlordRun string

text \<open>
  The scheduler object together with the two pieces of global state it writes:
  \<open>Memory.overseer.suspendUntil\<close> and \<open>Overmind.exceptions\<close>. A stored number is an
  \<open>int\<close>; \<open>Game.time\<close> is a \<open>nat\<close>.
\<close>

record Overseer =
  suspendUntil :: "string \<rightharpoonup> int"
  overlords :: "Overlord list"
  sorted_flag :: bool
  overlordsByColony :: "string \<rightharpoonup> Overlord list"
  directives :: "Directive list"
  exceptions :: "Exception list"
  calls :: "Call list"

text \<open>
  The task bodies (\<open>directive.init\<close>, \<open>overlord.run\<close>, ...) are not part of the scheduler. A
  body runs on the state of the scheduler, which it may change (a directive's \<open>run\<close> may
  remove the directive, an overlord may suspend itself), and then returns (\<open>None\<close>) or throws
  (\<open>Some t\<close>).
\<close>

type_synonym Body = "Overseer \<Rightarrow> Thrown option \<times> Overseer"

record TaskBehaviour =
  dInit :: "Directive \<Rightarrow> Body"
  dRun :: "Directive \<Rightarrow> Body"
  oPreInit :: "Overlord \<Rightarrow> Body"
  oInit :: "Overlord \<Rightarrow> Body"
  oRun :: "Overlord \<Rightarrow> Body"

text \<open>The constructor, given the persisted ledger and the process-wide exception list.\<close>

definition new_Overseer :: "(string \<rightharpoonup> int) \<Rightarrow> Exception list \<Rightarrow> Overseer" where
  "new_Overseer mem exs =
     \<lparr>suspendUntil = mem, overlords = [], sorted_flag = False,
      overlordsByColony = Map.empty, directives = [], exceptions = exs, calls = []\<rparr>"

subsection \<open>Failure isolation\<close>

definition newline :: string where
  "newline = [CHR 0x0A]"

text \<open>
  The rewriting of \<open>e.name\<close> in the catch block; \<open>cb\<close> is the text of the callback.
  \<open>if (identifier)\<close> is a truthiness test: it fails for a missing identifier and for the empty
  string.
\<close>

definition annotate :: "string \<Rightarrow> string option \<Rightarrow> Exception \<Rightarrow> Exception" where
  "annotate cb identifier e =
     (if (case identifier of None \<Rightarrow> False | Some i \<Rightarrow> i \<noteq> []) then
        e\<lparr>e_name := ''Caught unhandled exception at '' @ cb @ '' (identifier: ''
                      @ the identifier @ ''): '' @ newline @ e_name e @ newline @ e_stack e\<rparr>
      else
        e\<lparr>e_name := ''Caught unhandled exception at '' @ cb @ '': '' @ newline
                      @ e_name e @ newline @ e_stack e\<rparr>)"

text \<open>
  \<open>Overseer.try\<close>. The first argument is the setting \<open>USE_TRY_CATCH\<close>. With it, a thrown
  error object is renamed and pushed onto \<open>Overmind.exceptions\<close>; on any other thrown value
  the assignment of the name throws in its turn, and that leaves \<open>try\<close>. Without it, the
  callback is called bare. The result is what leaves \<open>try\<close>, if anything does.
\<close>

definition try_cb ::
  "bool \<Rightarrow> string \<Rightarrow> string option \<Rightarrow> Body \<Rightarrow> Overseer \<Rightarrow> Escape option \<times> Overseer" where
  "try_cb USE_TRY_CATCH cb identifier callback s =
     (if USE_TRY_CATCH then
        (case callback s of
           (None, s1) \<Rightarrow> (None, s1)
         | (Some (ErrorObject e), s1) \<Rightarrow>
             (None, s1\<lparr>exceptions := exceptions s1 @ [annotate cb identifier e]\<rparr>)
         | (Some NonObject, s1) \<Rightarrow> (Some NameWriteError, s1))
      else
        (case callback s of
           (None, s1) \<Rightarrow> (None, s1)
         | (Some t, s1) \<Rightarrow> (Some (Propagated t), s1)))"

subsection \<open>Registration\<close>

definition registerDirective :: "Directive \<Rightarrow> Overseer \<Rightarrow> Overseer" where
  "registerDirective d s = s\<lparr>directives := directives s @ [d]\<rparr>"

text \<open>
  \<open>registerOverlord\<close>: the colony's list is created empty when it is missing, then the
  Overlord is pushed onto it.
\<close>

definition registerOverlord :: "Overlord \<Rightarrow> Overseer \<Rightarrow> Overseer" where
  "registerOverlord ov s =
     (let s1 = s\<lparr>overlords := overlords s @ [ov]\<rparr>;
          colonyList = (case overlordsByColony s1 (o_colony ov) of None \<Rightarrow> [] | Some os \<Rightarrow> os)
      in s1\<lparr>overlordsByColony := (overlordsByColony s1)(o_colony ov \<mapsto> colonyList @ [ov])\<rparr>)"

definition removeOverlord :: "Overlord \<Rightarrow> Overseer \<Rightarrow> Overseer" where
  "removeOverlord ov s =
     (let s1 = s\<lparr>overlords := filter (\<lambda>x. o_ref x \<noteq> o_ref ov) (overlords s)\<rparr>
      in case overlordsByColony s1 (o_colony ov) of
           None \<Rightarrow> s1
         | Some os \<Rightarrow>
             s1\<lparr>overlordsByColony :=
                  (overlordsByColony s1)(o_colony ov \<mapsto> filter (\<lambda>x. o_ref x \<noteq> o_ref ov) os)\<rparr>)"

definition removeDirective :: "Directive \<Rightarrow> Overseer \<Rightarrow> Overseer" where
  "removeDirective d s =
     fold removeOverlord (d_overlords d)
       (s\<lparr>directives := filter (\<lambda>dir. d_name dir \<noteq> d_name d) (directives s)\<rparr>)"

subsection \<open>The suspension ledger\<close>

text \<open>
  \<open>if (this.memory.suspendUntil[ref])\<close> is a truthiness test: it fails for a missing entry
  and for the number 0.
\<close>

definition isOverlordSuspended :: "nat \<Rightarrow> Overlord \<Rightarrow> Overseer \<Rightarrow> bool \<times> Overseer" where
  "isOverlordSuspended now ov s =
     (case suspendUntil s (o_ref ov) of
        None \<Rightarrow> (False, s)
      | Some u \<Rightarrow>
          if u \<noteq> 0 then
            (if int now < u then (True, s)
             else (False, s\<lparr>suspendUntil := (suspendUntil s)(o_ref ov := None)\<rparr>))
          else (False, s))"

definition suspendOverlordFor :: "nat \<Rightarrow> Overlord \<Rightarrow> int \<Rightarrow> Overseer \<Rightarrow> Overseer" where
  "suspendOverlordFor now ov ticks s =
     s\<lparr>suspendUntil := (suspendUntil s)(o_ref ov \<mapsto> int now + ticks)\<rparr>"

definition suspendOverlordUntil :: "Overlord \<Rightarrow> int \<Rightarrow> Overseer \<Rightarrow> Overseer" where
  "suspendOverlordUntil ov untilTick s =
     s\<lparr>suspendUntil := (suspendUntil s)(o_ref ov \<mapsto> untilTick)\<rparr>"

text \<open>A series of reads of one Overlord's status, one per listed tick, oldest first.\<close>

fun reads :: "nat list \<Rightarrow> Overlord \<Rightarrow> Overseer \<Rightarrow> bool list \<times> Overseer" where
  "reads [] ov s = ([], s)"
| "reads (t # ts) ov s =
     (case isOverlordSuspended t ov s of
        (b, s1) \<Rightarrow> (case reads ts ov s1 of (bs, s2) \<Rightarrow> (b # bs, s2)))"

subsection \<open>The two phases of a tick\<close>

definition cb_init :: string where
  "cb_init = ''() => overlord.init()''"

definition cb_run :: string where
  "cb_run = ''() => overlord.run()''"

definition logCall :: "Call \<Rightarrow> Overseer \<Rightarrow> Overseer" where
  "logCall c s = s\<lparr>calls := calls s @ [c]\<rparr>"

text \<open>
  \<open>for (let directive of this.directives) directive.init()\<close>. A loop over an array reads
  the array as it is at each step: it goes on while the index is below the current length and
  takes the element then at the index, so an element removed by a body moves the later ones
  under the index, and elements pushed by a body are visited too. A loop that is fed new
  elements forever does not return; that is the value \<open>None\<close>. There is no wrapper around
  the call, so a throw ends the loop and leaves \<open>init\<close>.
\<close>

partial_function (option) init_directives ::
  "TaskBehaviour \<Rightarrow> nat \<Rightarrow> Overseer \<Rightarrow> (Escape option \<times> Overseer) option" where
  "init_directives B i s =
     (if i < length (directives s) then
        (case dInit B (directives s ! i) (logCall (DirectiveInit (d_name (directives s ! i))) s) of
           (Some t, s1) \<Rightarrow> Some (Some (Propagated t), s1)
         | (None, s1) \<Rightarrow> init_directives B (Suc i) s1)
      else Some (None, s))"

partial_function (option) run_directives ::
  "TaskBehaviour \<Rightarrow> nat \<Rightarrow> Overseer \<Rightarrow> (Escape option \<times> Overseer) option" where
  "run_directives B i s =
     (if i < length (directives s) then
        (case dRun B (directives s ! i) (logCall (DirectiveRun (d_name (directives s ! i))) s) of
           (Some t, s1) \<Rightarrow> Some (Some (Propagated t), s1)
         | (None, s1) \<Rightarrow> run_directives B (Suc i) s1)
      else Some (None, s))"

text \<open>
  The sort of \<open>init\<close>. \<open>Array.prototype.sort\<close> with the comparator
  \<open>o1.priority - o2.priority\<close> is taken as the stable sort of the language standard
  (ECMAScript 2019); \<open>sort_key\<close> is a stable insertion sort.
\<close>

definition sort_overlords :: "Overseer \<Rightarrow> Overseer" where
  "sort_overlords s =
     (if \<not> sorted_flag s then
        s\<lparr>overlords := sort_key o_priority (overlords s),
          overlordsByColony := (\<lambda>c. map_option (sort_key o_priority) (overlordsByColony s c)),
          sorted_flag := True\<rparr>
      else s)"

text \<open>
  The Overlord loops. \<open>overlord.preInit()\<close> is called bare; \<open>overlord.init()\<close> and
  \<open>overlord.run()\<close> go through \<open>try\<close>, without an identifier.
\<close>

partial_function (option) init_overlords ::
  "bool \<Rightarrow> TaskBehaviour \<Rightarrow> nat \<Rightarrow> nat \<Rightarrow> Overseer \<Rightarrow> (Escape option \<times> Overseer) option" where
  "init_overlords tc B now i s =
     (if i < length (overlords s) then
        (case isOverlordSuspended now (overlords s ! i) s of
           (suspended, s1) \<Rightarrow>
             if suspended then init_overlords tc B now (Suc i) s1
             else
               (case oPreInit B (overlords s ! i)
                       (logCall (OverlordPreInit (o_ref (overlords s ! i))) s1) of
                  (Some t, s2) \<Rightarrow> Some (Some (Propagated t), s2)
                | (None, s2) \<Rightarrow>
                    (case try_cb tc cb_init None (oInit B (overlords s ! i))
                            (logCall (OverlordInit (o_ref (overlords s ! i))) s2) of
                       (Some e, s3) \<Rightarrow> Some (Some e, s3)
                     | (None, s3) \<Rightarrow> init_overlords tc B now (Suc i) s3)))
      else Some (None, s))"

partial_function (option) run_overlords ::
  "bool \<Rightarrow> TaskBehaviour \<Rightarrow> nat \<Rightarrow> nat \<Rightarrow> Overseer \<Rightarrow> (Escape option \<times> Overseer) option" where
  "run_overlords tc B now i s =
     (if i < length (overlords s) then
        (case isOverlordSuspended now (overlords s ! i) s of
           (suspended, s1) \<Rightarrow>
             if suspended then run_overlords tc B now (Suc i) s1
             else
               (case try_cb tc cb_run None (oRun B (overlords s ! i))
                       (logCall (OverlordRun (o_ref (overlords s ! i))) s1) of
                  (Some e, s2) \<Rightarrow> Some (Some e, s2)
                | (None, s2) \<Rightarrow> run_overlords tc B now (Suc i) s2))
      else Some (None, s))"

text \<open>
  \<open>Overseer.init\<close> up to the end of the Overlord loop, and \<open>Overseer.run\<close> likewise. The
  loops over the colonies that follow (logistics requests; safe mode and directive placement)
  write to the colonies and the world, not to the scheduler; the evaluators among them that
  are needed below are \<open>handleSafeMode\<close> and \<open>handleColonyInvasions\<close>. The result is
  \<open>None\<close> when the method does not return; otherwise its first component is what leaves
  the method by a throw, if anything does.
\<close>

definition init ::
  "bool \<Rightarrow> TaskBehaviour \<Rightarrow> nat \<Rightarrow> Overseer \<Rightarrow> (Escape option \<times> Overseer) option" where
  "init tc B now s =
     (case init_directives B 0 s of
        None \<Rightarrow> None
      | Some (Some e, s1) \<Rightarrow> Some (Some e, s1)
      | Some (None, s1) \<Rightarrow> init_overlords tc B now 0 (sort_overlords s1))"

definition run ::
  "bool \<Rightarrow> TaskBehaviour \<Rightarrow> nat \<Rightarrow> Overseer \<Rightarrow> (Escape option \<times> Overseer) option" where
  "run tc B now s =
     (case run_directives B 0 s of
        None \<Rightarrow> None
      | Some (Some e, s1) \<Rightarrow> Some (Some e, s1)
      | Some (None, s1) \<Rightarrow> run_overlords tc B now 0 s1)"


subsection \<open>Notions used to state the properties of the scheduler\<close>

text \<open>
  Task bodies that leave the scheduler as it is: each is given by its outcome alone, \<open>None\<close>
  when it returns and \<open>Some t\<close> when it throws \<open>t\<close>.
\<close>

record Outcomes =
  out_dInit :: "Directive \<Rightarrow> Thrown option"
  out_dRun :: "Directive \<Rightarrow> Thrown option"
  out_oPreInit :: "Overlord \<Rightarrow> Thrown option"
  out_oInit :: "Overlord \<Rightarrow> Thrown option"
  out_oRun :: "Overlord \<Rightarrow> Thrown option"

definition passiveTasks :: "Outcomes \<Rightarrow> TaskBehaviour" where
  "passiveTasks U =
     \<lparr>dInit = (\<lambda>d s. (out_dInit U d, s)), dRun = (\<lambda>d s. (out_dRun U d, s)),
      oPreInit = (\<lambda>ov s. (out_oPreInit U ov, s)), oInit = (\<lambda>ov s. (out_oInit U ov, s)),
      oRun = (\<lambda>ov s. (out_oRun U ov, s))\<rparr>"

text \<open>
  Of a list of tasks called in turn until one throws: the tasks that are called, and what is
  thrown.
\<close>

fun invoked :: "('a \<Rightarrow> Thrown option) \<Rightarrow> 'a list \<Rightarrow> 'a list" where
  "invoked f [] = []"
| "invoked f (x # xs) = x # (if f x = None then invoked f xs else [])"

fun firstThrown :: "('a \<Rightarrow> Thrown option) \<Rightarrow> 'a list \<Rightarrow> Thrown option" where
  "firstThrown f [] = None"
| "firstThrown f (x # xs) = (case f x of None \<Rightarrow> firstThrown f xs | Some t \<Rightarrow> Some t)"

text \<open>The Overlords of a list that are not suspended at a tick, in the order of the list.\<close>

definition active :: "nat \<Rightarrow> Overseer \<Rightarrow> Overlord list \<Rightarrow> Overlord list" where
  "active now s os = filter (\<lambda>ov. \<not> fst (isOverlordSuspended now ov s)) os"

text \<open>Every colony's list holds Overlords of that colony only.\<close>

definition colony_keyed :: "Overseer \<Rightarrow> bool" where
  "colony_keyed s = (\<forall>c os. overlordsByColony s c = Some os \<longrightarrow> (\<forall>x\<in>set os. o_colony x = c))"

text \<open>
  The calls that \<open>init\<close> and \<open>run\<close> make for one Overlord, and the error objects that the
  Overlords of a list throw.
\<close>

definition initCalls :: "Overlord \<Rightarrow> Call list" where
  "initCalls ov = [OverlordPreInit (o_ref ov), OverlordInit (o_ref ov)]"

definition runCalls :: "Overlord \<Rightarrow> Call list" where
  "runCalls ov = [OverlordRun (o_ref ov)]"

definition thrownObjects :: "(Overlord \<Rightarrow> Thrown option) \<Rightarrow> Overlord list \<Rightarrow> Exception list" where
  "thrownObjects f os =
     List.map_filter (\<lambda>ov. case f ov of Some (ErrorObject e) \<Rightarrow> Some e | _ \<Rightarrow> None) os"

text \<open>
  A stored exception \<open>e'\<close> carries the context of the thrown \<open>e\<close>: the stack is the same, and
  the name starts with the notice and the text of the callback and ends with the original
  name and the stack.
\<close>

definition carries :: "string \<Rightarrow> Exception \<Rightarrow> Exception \<Rightarrow> bool" where
  "carries cb e e' =
     (e_stack e' = e_stack e
      \<and> prefix (''Caught unhandled exception at '' @ cb) (e_name e')
      \<and> suffix ('': '' @ [CHR 0x0A] @ e_name e @ [CHR 0x0A] @ e_stack e) (e_name e'))"

subsection \<open>Example values\<close>

abbreviation ovA :: Overlord where
  "ovA \<equiv> \<lparr>o_ref = ''A'', o_priority = 10, o_colony = ''W1N1''\<rparr>"

abbreviation ovB :: Overlord where
  "ovB \<equiv> \<lparr>o_ref = ''B'', o_priority = 5, o_colony = ''W1N1''\<rparr>"

abbreviation ovO :: Overlord where
  "ovO \<equiv> \<lparr>o_ref = ''O'', o_priority = 0, o_colony = ''W1N1''\<rparr>"

abbreviation dirX :: Directive where
  "dirX \<equiv> \<lparr>d_name = ''extract_W1N1'', d_overlords = [ovA]\<rparr>"

abbreviation boom :: Exception where
  "boom \<equiv> \<lparr>e_name = ''TypeError'', e_stack = ''at init''\<rparr>"

abbreviation silent :: Outcomes where
  "silent \<equiv> \<lparr>out_dInit = Map.empty, out_dRun = Map.empty, out_oPreInit = Map.empty,
               out_oInit = Map.empty, out_oRun = Map.empty\<rparr>"

abbreviation quiet :: TaskBehaviour where
  "quiet \<equiv> passiveTasks silent"

abbreviation overseer0 :: Overseer where
  "overseer0 \<equiv> new_Overseer Map.empty []"

abbreviation overseerAB :: Overseer where
  "overseerAB \<equiv> registerOverlord ovB (registerOverlord ovA (registerDirective dirX overseer0))"

text \<open>
  A second directive, and task bodies among which a directive's \<open>run\<close> removes the directive
  from the scheduler.
\<close>

abbreviation dirY :: Directive where
  "dirY \<equiv> \<lparr>d_name = ''outpost_W1N2'', d_overlords = []\<rparr>"

abbreviation selfRemoving :: TaskBehaviour where
  "selfRemoving \<equiv> quiet\<lparr>dRun := (\<lambda>d s. (None, removeDirective d s))\<rparr>"

section \<open>Situational evaluators\<close>

subsection \<open>World data read by the evaluators\<close>

record RoomPosition =
  pos_x :: int
  pos_y :: int
  pos_roomName :: string

record Structure =
  st_pos :: RoomPosition
  hits :: nat
  hitsMax :: nat

record Creep =
  cr_pos :: RoomPosition
  cr_boosts :: "string list"

datatype ColonyStage = Larva | Pupa | Adult

text \<open>
  A spawn request as the spawn group reads it: \<open>request.setup.role\<close> and
  \<open>request.setup.generateBody\<close>, a function of the available energy (\<open>None\<close> stands for
  \<open>-Infinity\<close>, the value of \<open>_.max\<close> on an empty list). A body is a list of part names.
\<close>

record SpawnRequest =
  req_role :: string
  req_generateBody :: "nat option \<Rightarrow> string list"

text \<open>
  A hatchery as the spawn group reads it: \<open>hatchery.pos.roomName\<close>,
  \<open>hatchery.room.energyCapacityAvailable\<close>, \<open>hatchery.nextAvailability\<close>, and the requests
  it has been handed.
\<close>

record Hatchery =
  h_roomName :: string
  h_energyCapacityAvailable :: nat
  h_nextAvailability :: int
  h_queue :: "SpawnRequest list"

text \<open>
  The fields of a Colony and of its room and controller that are read here. The room of a
  colony (\<open>colony.room\<close>) is always there. \<open>controller.safeMode\<close> is the number of ticks
  left, or undefined.
\<close>

record Colony =
  c_name :: string
  c_stage :: ColonyStage
  c_level :: nat
  c_spawns :: "Structure list"
  c_storage :: "Structure option"
  c_terminal :: "Structure option"
  c_hatchery :: "Hatchery option"
  room_name :: string
  room_hostiles :: "Creep list"
  room_dangerousHostiles :: "Creep list"
  room_dangerousPlayerHostiles :: "Creep list"
  room_barriers :: "Structure list"
  controller_pos :: RoomPosition
  controller_safeMode :: "nat option"

datatype DirectiveKind =
  InvasionDefense | TerminalEvacuateState | Bootstrap | OutpostDefense | Guard | NukeResponse

datatype Scope = ScopeRoom | ScopePos

record Flag =
  f_kind :: DirectiveKind
  f_pos :: RoomPosition

datatype Event = ActivateSafeMode int | CreateFlag DirectiveKind RoomPosition

text \<open>The flags placed in the world, and the log of what the evaluators did to it.\<close>

record World =
  flags :: "Flag list"
  events :: "Event list"

text \<open>
  What the evaluators ask of the game and of the other modules. \<open>activateSafeMode k\<close> is
  the code returned by the call of \<open>controller.activateSafeMode()\<close> that follows \<open>k\<close>
  earlier calls in the same evaluation; \<open>unsafeFor r\<close> is
  \<open>RoomIntel.getSafetyData(r).unsafeFor\<close>; \<open>invasionDefense_requiredRCL\<close> is the constant
  \<open>DirectiveInvasionDefense.requiredRCL\<close>.
\<close>

record Env =
  onPublicServer :: bool
  findInRange :: "RoomPosition \<Rightarrow> Creep list \<Rightarrow> nat \<Rightarrow> Creep list"
  isReachable :: "RoomPosition \<Rightarrow> RoomPosition \<Rightarrow> RoomPosition list \<Rightarrow> bool"
  activateSafeMode :: "nat \<Rightarrow> int"
  unsafeFor :: "string \<Rightarrow> nat"
  invasionDefense_requiredRCL :: nat

definition OK :: int where
  "OK = 0"

text \<open>
  Modelled from the spec: \<open>Directive.createIfNotPresent\<close> (the Directive class is not among
  the sources). "Create (if absent)": nothing happens when a directive of the kind is
  already present in the room (scope \<open>room\<close>) or at the position (scope \<open>pos\<close>); otherwise
  one is placed at the position.
\<close>

definition isPresent :: "DirectiveKind \<Rightarrow> RoomPosition \<Rightarrow> Scope \<Rightarrow> Flag list \<Rightarrow> bool" where
  "isPresent k p sc fs =
     (case sc of
        ScopeRoom \<Rightarrow> (\<exists>f\<in>set fs. f_kind f = k \<and> pos_roomName (f_pos f) = pos_roomName p)
      | ScopePos \<Rightarrow> (\<exists>f\<in>set fs. f_kind f = k \<and> f_pos f = p))"

text \<open>
  Modelled from the spec: \<open>createIfNotPresent\<close> itself; a placement is also written to the
  log of events.
\<close>

definition createIfNotPresent :: "DirectiveKind \<Rightarrow> RoomPosition \<Rightarrow> Scope \<Rightarrow> World \<Rightarrow> World" where
  "createIfNotPresent k p sc w =
     (if isPresent k p sc (flags w) then w
      else w\<lparr>flags := flags w @ [\<lparr>f_kind = k, f_pos = p\<rparr>],
             events := events w @ [CreateFlag k p]\<rparr>)"

subsection \<open>Safe mode\<close>

definition criticalStructures :: "Colony \<Rightarrow> Structure list" where
  "criticalStructures c =
     c_spawns c
     @ (case c_storage c of None \<Rightarrow> [] | Some x \<Rightarrow> [x])
     @ (case c_terminal c of None \<Rightarrow> [] | Some x \<Rightarrow> [x])"

definition safeModeCalls :: "Event list \<Rightarrow> nat" where
  "safeModeCalls es = length (filter (\<lambda>e. case e of ActivateSafeMode _ \<Rightarrow> True | _ \<Rightarrow> False) es)"

text \<open>\<open>!colony.controller.safeMode\<close>: undefined and 0 are falsy.\<close>

definition safeModeActive :: "Colony \<Rightarrow> bool" where
  "safeModeActive c = (case controller_safeMode c of None \<Rightarrow> False | Some n \<Rightarrow> n \<noteq> 0)"

text \<open>
  The block that both triggers of \<open>handleSafeMode\<close> run once they fire. The boolean is
  \<open>True\<close> when the block ends in \<open>return\<close>.
\<close>

definition attemptSafeMode :: "Env \<Rightarrow> Colony \<Rightarrow> World \<Rightarrow> bool \<times> World" where
  "attemptSafeMode E c w =
     (let ret = activateSafeMode E (safeModeCalls (events w));
          w1 = w\<lparr>events := events w @ [ActivateSafeMode ret]\<rparr>
      in if ret \<noteq> OK \<and> \<not> safeModeActive c then
           (case c_terminal c of
              Some t \<Rightarrow> (False, createIfNotPresent TerminalEvacuateState (st_pos t) ScopeRoom w1)
            | None \<Rightarrow> (False, w1))
         else (True, w1))"

fun scanStructures :: "Env \<Rightarrow> Colony \<Rightarrow> Structure list \<Rightarrow> World \<Rightarrow> bool \<times> World" where
  "scanStructures E c [] w = (False, w)"
| "scanStructures E c (st # sts) w =
     (if hits st < hitsMax st \<and> findInRange E (st_pos st) (room_dangerousHostiles c) 2 \<noteq> [] then
        (case attemptSafeMode E c w of
           (True, w1) \<Rightarrow> (True, w1)
         | (False, w1) \<Rightarrow> scanStructures E c sts w1)
      else scanStructures E c sts w)"

definition handleSafeMode :: "Env \<Rightarrow> Colony \<Rightarrow> World \<Rightarrow> World" where
  "handleSafeMode E c w =
     (if c_stage c = Larva \<and> onPublicServer E then w
      else
        (case scanStructures E c (criticalStructures c) w of
           (True, w1) \<Rightarrow> w1
         | (False, w1) \<Rightarrow>
             (case room_dangerousHostiles c of
                [] \<Rightarrow> w1
              | firstHostile # _ \<Rightarrow>
                  (case c_spawns c of
                     [] \<Rightarrow> w1
                   | spawn0 # _ \<Rightarrow>
                       if isReachable E (cr_pos firstHostile) (st_pos spawn0)
                            (map st_pos (room_barriers c))
                       then snd (attemptSafeMode E c w1)
                       else w1))))"

subsection \<open>Invasion defence\<close>

definition handleColonyInvasions :: "Env \<Rightarrow> Colony \<Rightarrow> World \<Rightarrow> World" where
  "handleColonyInvasions E c w =
     (if invasionDefense_requiredRCL E \<le> c_level c then
        (let effectiveInvaderCount =
               sum_list (map (\<lambda>invader. if cr_boosts invader \<noteq> [] then 2 else (1::nat))
                          (room_hostiles c));
             needsDefending = (3 \<le> effectiveInvaderCount \<or> room_dangerousPlayerHostiles c \<noteq> []);
             invasionIsPersistent = (20 < unsafeFor E (room_name c))
         in if needsDefending \<and> invasionIsPersistent
            then createIfNotPresent InvasionDefense (controller_pos c) ScopeRoom w
            else w)
      else w)"


subsection \<open>Notions used to state the properties of the evaluators\<close>

definition failedOnly :: "Colony \<Rightarrow> Event list \<Rightarrow> bool" where
  "failedOnly c es =
     (\<forall>e\<in>set es. case e of ActivateSafeMode r \<Rightarrow> r \<noteq> OK \<and> \<not> safeModeActive c | _ \<Rightarrow> True)"

definition structureTrigger :: "Env \<Rightarrow> Colony \<Rightarrow> Structure \<Rightarrow> bool" where
  "structureTrigger E c st =
     (hits st < hitsMax st \<and> findInRange E (st_pos st) (room_dangerousHostiles c) 2 \<noteq> [])"

definition reachTrigger :: "Env \<Rightarrow> Colony \<Rightarrow> bool" where
  "reachTrigger E c =
     (case room_dangerousHostiles c of
        [] \<Rightarrow> False
      | firstHostile # _ \<Rightarrow>
          (case c_spawns c of
             [] \<Rightarrow> False
           | spawn0 # _ \<Rightarrow>
               isReachable E (cr_pos firstHostile) (st_pos spawn0) (map st_pos (room_barriers c))))"

definition invasionFlags :: "string \<Rightarrow> Flag list \<Rightarrow> Flag list" where
  "invasionFlags r fs = filter (\<lambda>f. f_kind f = InvasionDefense \<and> pos_roomName (f_pos f) = r) fs"

definition needsDefence :: "Env \<Rightarrow> Colony \<Rightarrow> bool" where
  "needsDefence E c =
     ((3 \<le> (\<Sum>h\<leftarrow>room_hostiles c. if cr_boosts h \<noteq> [] then 2 else (1::nat))
        \<or> room_dangerousPlayerHostiles c \<noteq> [])
      \<and> 20 < unsafeFor E (room_name c))"


subsection \<open>Example values\<close>

abbreviation posSpawn1 :: RoomPosition where
  "posSpawn1 \<equiv> \<lparr>pos_x = 20, pos_y = 20, pos_roomName = ''W1N1''\<rparr>"

abbreviation posSpawn2 :: RoomPosition where
  "posSpawn2 \<equiv> \<lparr>pos_x = 22, pos_y = 20, pos_roomName = ''W1N1''\<rparr>"

abbreviation posTerminal :: RoomPosition where
  "posTerminal \<equiv> \<lparr>pos_x = 24, pos_y = 24, pos_roomName = ''W1N1''\<rparr>"

abbreviation posController :: RoomPosition where
  "posController \<equiv> \<lparr>pos_x = 30, pos_y = 10, pos_roomName = ''W1N1''\<rparr>"

abbreviation invader :: Creep where
  "invader \<equiv> \<lparr>cr_pos = \<lparr>pos_x = 21, pos_y = 21, pos_roomName = ''W1N1''\<rparr>, cr_boosts = []\<rparr>"

abbreviation colonyX :: Colony where
  "colonyX \<equiv>
     \<lparr>c_name = ''W1N1'', c_stage = Adult, c_level = 6,
      c_spawns = [\<lparr>st_pos = posSpawn1, hits = 100, hitsMax = 5000\<rparr>,
                  \<lparr>st_pos = posSpawn2, hits = 200, hitsMax = 5000\<rparr>],
      c_storage = None,
      c_terminal = Some \<lparr>st_pos = posTerminal, hits = 3000, hitsMax = 3000\<rparr>,
      c_hatchery = None, room_name = ''W1N1'',
      room_hostiles = [invader, invader, invader],
      room_dangerousHostiles = [invader],
      room_dangerousPlayerHostiles = [],
      room_barriers = [],
      controller_pos = posController,
      controller_safeMode = None\<rparr>"

text \<open>
  An environment in which every hostile is in range of every position, the first hostile can
  reach the spawn, the room has been unsafe for 25 ticks, and every activation fails with
  \<open>ERR_NOT_ENOUGH_RESOURCES\<close>; and the same with activations that succeed.
\<close>

abbreviation envFail :: Env where
  "envFail \<equiv>
     \<lparr>onPublicServer = False,
      findInRange = (\<lambda>p hs r. hs),
      isReachable = (\<lambda>a b bs. True),
      activateSafeMode = (\<lambda>k. - 6),
      unsafeFor = (\<lambda>r. 25),
      invasionDefense_requiredRCL = 3\<rparr>"

abbreviation envOK :: Env where
  "envOK \<equiv> envFail\<lparr>activateSafeMode := (\<lambda>k. OK)\<rparr>"

abbreviation world0 :: World where
  "world0 \<equiv> \<lparr>flags = [], events = []\<rparr>"

section \<open>SpawnGroup: the spawn allocator\<close>

subsection \<open>Data\<close>

type_synonym Route = "(string \<times> bool) list"

record SpawnGroupMemory =
  colonies :: "string list"
  distances :: "string \<rightharpoonup> nat"
  routes :: "string \<rightharpoonup> Route"
  expiration :: int

definition SpawnGroupMemoryDefaults :: SpawnGroupMemory where
  "SpawnGroupMemoryDefaults =
     \<lparr>colonies = [], distances = Map.empty, routes = Map.empty, expiration = 0\<rparr>"

definition MAX_LINEAR_DISTANCE :: nat where
  "MAX_LINEAR_DISTANCE = 10"

definition MAX_PATH_DISTANCE :: nat where
  "MAX_PATH_DISTANCE = 600"

definition DEFAULT_RECACHE_TIME :: "bool \<Rightarrow> nat" where
  "DEFAULT_RECACHE_TIME public = (if public then 2000 else 1000)"

record SpawnGroupSettings =
  maxPathDistance :: nat
  requiredRCL :: nat
  flexibleEnergy :: bool

definition defaultSettings :: SpawnGroupSettings where
  "defaultSettings = \<lparr>maxPathDistance = 250, requiredRCL = 7, flexibleEnergy = True\<rparr>"

text \<open>\<open>Partial<SpawnGroupSettings>\<close>: each field may be left out.\<close>

record PartialSettings =
  p_maxPathDistance :: "nat option"
  p_requiredRCL :: "nat option"
  p_flexibleEnergy :: "bool option"

definition defaults :: "PartialSettings \<Rightarrow> SpawnGroupSettings \<Rightarrow> SpawnGroupSettings" where
  "defaults p d =
     \<lparr>maxPathDistance = (case p_maxPathDistance p of Some v \<Rightarrow> v | None \<Rightarrow> maxPathDistance d),
      requiredRCL = (case p_requiredRCL p of Some v \<Rightarrow> v | None \<Rightarrow> requiredRCL d),
      flexibleEnergy = (case p_flexibleEnergy p of Some v \<Rightarrow> v | None \<Rightarrow> flexibleEnergy d)\<rparr>"

record SpawnGroupInitializer =
  i_ref :: string
  i_pos :: RoomPosition

record Room =
  r_name :: string
  r_spawns :: "Structure list"
  r_my :: bool
  r_controller_level :: nat
  r_energyCapacityAvailable :: nat

record PathResult =
  p_path :: "RoomPosition list"
  incomplete :: bool

text \<open>
  The game as the spawn group sees it: \<open>Game.time\<close>, \<open>Game.rooms\<close>,
  \<open>getAllColonyRooms()\<close>, \<open>Game.map.getRoomLinearDistance\<close>, \<open>Pathing.findRoute\<close> (a route
  or undefined) and \<open>Pathing.findPathToRoom\<close> with its \<open>route\<close> option.
\<close>

record Game =
  g_time :: nat
  g_rooms :: "string \<rightharpoonup> Room"
  getAllColonyRooms :: "Room list"
  getRoomLinearDistance :: "string \<Rightarrow> string \<Rightarrow> nat"
  findRoute :: "string \<Rightarrow> string \<Rightarrow> Route option"
  findPathToRoom :: "RoomPosition \<Rightarrow> string \<Rightarrow> Route option \<Rightarrow> PathResult"

record SpawnGroup =
  sg_memory :: SpawnGroupMemory
  sg_requests :: "SpawnRequest list"
  sg_roomName :: string
  sg_colonyNames :: "string list"
  sg_energyCapacityAvailable :: "nat option"
  sg_ref :: string
  sg_settings :: SpawnGroupSettings

subsection \<open>The shared cache\<close>

text \<open>
  Modelled from the spec: \<open>getCacheExpiration\<close> (utilities/utils is not among the sources).
  "Current tick + a base recache interval + bounded jitter"; the random draw is the last
  argument, and the jitter is the draw kept within the bound, which is the third.
\<close>

definition getCacheExpiration :: "nat \<Rightarrow> nat \<Rightarrow> nat \<Rightarrow> int \<Rightarrow> int" where
  "getCacheExpiration now timeout offset draw =
     int now + int timeout + max (- int offset) (min (int offset) draw)"

text \<open>The loop of \<open>recalculateColonies\<close> over the three local accumulators.\<close>

fun recalculate_loop ::
  "Game \<Rightarrow> string \<Rightarrow> Room list
    \<Rightarrow> string list \<times> (string \<rightharpoonup> Route) \<times> (string \<rightharpoonup> nat)
    \<Rightarrow> string list \<times> (string \<rightharpoonup> Route) \<times> (string \<rightharpoonup> nat)" where
  "recalculate_loop G roomName [] acc = acc"
| "recalculate_loop G roomName (colonyRoom # rest) (cols, rts, dists) =
     (case r_spawns colonyRoom of
        [] \<Rightarrow> recalculate_loop G roomName rest (cols, rts, dists)
      | spawn # _ \<Rightarrow>
          (let route = findRoute G (r_name colonyRoom) roomName;
               path = findPathToRoom G (st_pos spawn) roomName route
           in case route of
                Some rt \<Rightarrow>
                  if \<not> incomplete path \<and> length (p_path path) \<le> MAX_PATH_DISTANCE then
                    recalculate_loop G roomName rest
                      (cols @ [r_name colonyRoom],
                       rts(r_name colonyRoom \<mapsto> rt),
                       dists(r_name colonyRoom \<mapsto> length (p_path path)))
                  else recalculate_loop G roomName rest (cols, rts, dists)
              | None \<Rightarrow> recalculate_loop G roomName rest (cols, rts, dists)))"

definition recalculateColonies ::
  "Game \<Rightarrow> bool \<Rightarrow> int \<Rightarrow> string \<Rightarrow> SpawnGroupMemory \<Rightarrow> SpawnGroupMemory" where
  "recalculateColonies G public jitter roomName m =
     (let colonyRoomsInRange =
            filter (\<lambda>room. getRoomLinearDistance G (r_name room) roomName \<le> MAX_LINEAR_DISTANCE)
              (getAllColonyRooms G)
      in case recalculate_loop G roomName colonyRoomsInRange ([], Map.empty, Map.empty) of
           (cols, rts, dists) \<Rightarrow>
             m\<lparr>colonies := cols, routes := rts, distances := dists,
               expiration := getCacheExpiration (g_time G) (DEFAULT_RECACHE_TIME public) 25 jitter\<rparr>)"

text \<open>
  \<open>_.max\<close> of a list of numbers; \<open>None\<close> stands for \<open>-Infinity\<close>. In the constructor
  \<open>Game.rooms[name]\<close> is defined for every name that has passed the filter before.
\<close>

definition max_list :: "nat list \<Rightarrow> nat option" where
  "max_list xs = (case xs of [] \<Rightarrow> None | y # ys \<Rightarrow> Some (fold max ys y))"

text \<open>
  The constructor. The argument \<open>stored\<close> is the object that
  \<open>Mem.wrap(Memory.rooms[roomName], 'spawnGroup', SpawnGroupMemoryDefaults)\<close> returns: the
  shared memory of the anchor, which is \<open>SpawnGroupMemoryDefaults\<close> when nothing was stored
  yet. The memory of the result is what that shared object holds afterwards. The statistic
  \<open>stats.avgDistance\<close>, computed from the memory before any recalculation and read by
  nothing below, and the entry of the group in \<open>Overmind.spawnGroups\<close> are left out.
\<close>

definition new_SpawnGroup ::
  "Game \<Rightarrow> bool \<Rightarrow> int \<Rightarrow> SpawnGroupInitializer \<Rightarrow> PartialSettings
    \<Rightarrow> SpawnGroupMemory \<Rightarrow> SpawnGroup" where
  "new_SpawnGroup G public jitter initializer settings stored =
     (let roomName = pos_roomName (i_pos initializer);
          memory0 = stored;
          settings1 = defaults settings defaultSettings;
          memory1 = (if expiration memory0 \<le> int (g_time G)
                     then recalculateColonies G public jitter roomName memory0
                     else memory0);
          colonyNames =
            filter (\<lambda>name.
                (case distances memory1 name of
                   None \<Rightarrow> False
                 | Some d \<Rightarrow> d \<le> maxPathDistance settings1)
                \<and> (case g_rooms G name of
                      None \<Rightarrow> False
                    | Some room \<Rightarrow> r_my room \<and> requiredRCL settings1 \<le> r_controller_level room))
              (colonies memory1)
      in \<lparr>sg_memory = memory1,
          sg_requests = [],
          sg_roomName = roomName,
          sg_colonyNames = colonyNames,
          sg_energyCapacityAvailable =
            max_list (map (\<lambda>name. r_energyCapacityAvailable (the (g_rooms G name))) colonyNames),
          sg_ref = i_ref initializer @ '':SG'',
          sg_settings = settings1\<rparr>)"

definition refresh :: "SpawnGroupMemory \<Rightarrow> SpawnGroup \<Rightarrow> SpawnGroup" where
  "refresh stored sg = sg\<lparr>sg_memory := stored, sg_requests := []\<rparr>"

definition enqueue :: "SpawnRequest \<Rightarrow> SpawnGroup \<Rightarrow> SpawnGroup" where
  "enqueue request sg = sg\<lparr>sg_requests := sg_requests sg @ [request]\<rparr>"

text \<open>
  The memory states of one anchor: the defaults, and what construction, refresh and
  recalculation make of a state already reached.
\<close>

inductive reachable :: "SpawnGroupMemory \<Rightarrow> bool" where
  reach_defaults: "reachable SpawnGroupMemoryDefaults"
| reach_construct:
    "reachable m \<Longrightarrow> reachable (sg_memory (new_SpawnGroup G public jitter initializer settings m))"
| reach_refresh: "reachable m \<Longrightarrow> reachable (sg_memory (refresh m sg))"
| reach_recalculate: "reachable m \<Longrightarrow> reachable (recalculateColonies G public jitter roomName m)"

subsection \<open>Assignment of requests\<close>

text \<open>
  Modelled from the spec: \<open>minBy\<close> (utilities/utils is not among the sources). "Select the
  one minimizing" the key; a candidate whose key is no number (\<open>None\<close>: the falsy sentinel,
  or \<open>NaN\<close>) is never selected, and of several minimal candidates the first is taken.
\<close>

definition minBy_step :: "('a \<Rightarrow> int option) \<Rightarrow> 'a \<Rightarrow> ('a \<times> int) option \<Rightarrow> ('a \<times> int) option" where
  "minBy_step f x best =
     (case f x of
        None \<Rightarrow> best
      | Some v \<Rightarrow>
          (case best of
             None \<Rightarrow> Some (x, v)
           | Some (minObj, minVal) \<Rightarrow> if v < minVal then Some (x, v) else best))"

text \<open>Modelled from the spec: the scan of \<open>minBy\<close> over the candidates, left to right.\<close>

fun minBy_loop :: "'a list \<Rightarrow> ('a \<Rightarrow> int option) \<Rightarrow> ('a \<times> int) option \<Rightarrow> ('a \<times> int) option" where
  "minBy_loop [] f best = best"
| "minBy_loop (x # xs) f best = minBy_loop xs f (minBy_step f x best)"

text \<open>Modelled from the spec: \<open>minBy\<close> itself, the object that the scan ends with.\<close>

definition minBy :: "'a list \<Rightarrow> ('a \<Rightarrow> int option) \<Rightarrow> 'a option" where
  "minBy xs f = map_option fst (minBy_loop xs f None)"

text \<open>
  \<open>distanceTo\<close>: \<open>this.memory.distances[hatchery.pos.roomName] + 25\<close>. A missing entry
  makes the sum \<open>NaN\<close>, here \<open>None\<close>.
\<close>

definition distanceTo :: "SpawnGroupMemory \<Rightarrow> Hatchery \<Rightarrow> int option" where
  "distanceTo m hatchery = map_option (\<lambda>d. int d + 25) (distances m (h_roomName hatchery))"

text \<open>
  The hatchery objects of the eligible colonies, each with the name of its colony:
  \<open>Overmind.colonies[name]\<close> and then \<open>colony.hatchery\<close>, the undefined ones dropped. Two
  entries with one name are one object.
\<close>

definition hatcheriesOf :: "(string \<rightharpoonup> Colony) \<Rightarrow> string list \<Rightarrow> (string \<times> Hatchery) list" where
  "hatcheriesOf overmind_colonies names =
     List.map_filter
       (\<lambda>name. case overmind_colonies name of
                 None \<Rightarrow> None
               | Some colony \<Rightarrow> map_option (Pair name) (c_hatchery colony))
       names"

definition warning :: "SpawnRequest \<Rightarrow> SpawnGroup \<Rightarrow> string" where
  "warning request sg =
     ''Could not enqueue creep '' @ req_role request @ '' from spawnGroup in '' @ sg_roomName sg"

text \<open>
  The body of the loop of \<open>init\<close>, for one request. \<open>bodyCost\<close> (creepSetups/CreepSetup) and
  the hatchery's own \<open>enqueue\<close> are arguments. The state is the hatcheries and the log of
  warnings.
\<close>

definition init_request ::
  "(string list \<Rightarrow> nat) \<Rightarrow> (SpawnRequest \<Rightarrow> Hatchery \<Rightarrow> Hatchery) \<Rightarrow> SpawnGroup \<Rightarrow> SpawnRequest
    \<Rightarrow> (string \<times> Hatchery) list \<times> string list \<Rightarrow> (string \<times> Hatchery) list \<times> string list" where
  "init_request bodyCost h_enqueue sg request st =
     (case st of (hatcheries, log) \<Rightarrow>
        (let maxCost = bodyCost (req_generateBody request (sg_energyCapacityAvailable sg));
             okHatcheries = filter (\<lambda>(name, hatchery). maxCost \<le> h_energyCapacityAvailable hatchery)
                              hatcheries;
             bestHatchery =
               minBy okHatcheries
                 (\<lambda>(name, hatchery).
                    map_option (\<lambda>d. h_nextAvailability hatchery + d) (distanceTo (sg_memory sg) hatchery))
         in case bestHatchery of
              Some (best, _) \<Rightarrow>
                (map (\<lambda>(name, hatchery).
                        if name = best then (name, h_enqueue request hatchery) else (name, hatchery))
                   hatcheries,
                 log)
            | None \<Rightarrow> (hatcheries, log @ [warning request sg])))"

definition sg_init ::
  "(string list \<Rightarrow> nat) \<Rightarrow> (SpawnRequest \<Rightarrow> Hatchery \<Rightarrow> Hatchery) \<Rightarrow> (string \<rightharpoonup> Colony)
    \<Rightarrow> SpawnGroup \<Rightarrow> string list \<Rightarrow> (string \<times> Hatchery) list \<times> string list" where
  "sg_init bodyCost h_enqueue overmind_colonies sg log =
     fold (init_request bodyCost h_enqueue sg) (sg_requests sg)
       (hatcheriesOf overmind_colonies (sg_colonyNames sg), log)"


subsection \<open>Notions used to state the properties of the spawn group\<close>

text \<open>
  The path that the recalculation computes for a colony room with a spawn, and the
  acceptance condition in the words of the design: a live spawn, a route exists, the path is
  complete, and its length does not exceed the absolute ceiling.
\<close>

definition pathFrom :: "Game \<Rightarrow> string \<Rightarrow> Room \<Rightarrow> PathResult" where
  "pathFrom G roomName r =
     findPathToRoom G (st_pos (hd (r_spawns r))) roomName (findRoute G (r_name r) roomName)"

definition accepted :: "Game \<Rightarrow> string \<Rightarrow> Room \<Rightarrow> bool" where
  "accepted G roomName r =
     (r_spawns r \<noteq> [] \<and> findRoute G (r_name r) roomName \<noteq> None
      \<and> \<not> incomplete (pathFrom G roomName r)
      \<and> length (p_path (pathFrom G roomName r)) \<le> 600)"

definition inRange :: "Game \<Rightarrow> string \<Rightarrow> Room \<Rightarrow> bool" where
  "inRange G roomName r = (getRoomLinearDistance G (r_name r) roomName \<le> 10)"

text \<open>What construction leaves in the shared memory of the anchor.\<close>

definition constructed_memory ::
  "Game \<Rightarrow> bool \<Rightarrow> int \<Rightarrow> SpawnGroupInitializer \<Rightarrow> PartialSettings
    \<Rightarrow> SpawnGroupMemory \<Rightarrow> SpawnGroupMemory" where
  "constructed_memory G public jitter initializer settings stored =
     sg_memory (new_SpawnGroup G public jitter initializer settings stored)"

definition cached :: "SpawnGroupMemory \<Rightarrow> string list \<times> (string \<rightharpoonup> nat) \<times> (string \<rightharpoonup> Route)" where
  "cached m = (colonies m, distances m, routes m)"

text \<open>The cost of a producer for the allocator, when its distance is cached.\<close>

definition waitCost :: "SpawnGroupMemory \<Rightarrow> Hatchery \<Rightarrow> int" where
  "waitCost m h = h_nextAvailability h + int (the (distances m (h_roomName h))) + 25"

text \<open>
  The producers that can afford a body of the given cost, and among some producers those
  whose distance is cached.
\<close>

definition affordable :: "nat \<Rightarrow> (string \<times> Hatchery) list \<Rightarrow> (string \<times> Hatchery) list" where
  "affordable maxCost hs = filter (\<lambda>(name, h). maxCost \<le> h_energyCapacityAvailable h) hs"

definition cachedOnly :: "SpawnGroupMemory \<Rightarrow> (string \<times> Hatchery) list \<Rightarrow> (string \<times> Hatchery) list" where
  "cachedOnly m hs = filter (\<lambda>(name, h). distances m (h_roomName h) \<noteq> None) hs"


subsection \<open>Example values\<close>

abbreviation roomA :: Room where
  "roomA \<equiv> \<lparr>r_name = ''W1N1'', r_spawns = [\<lparr>st_pos = posSpawn1, hits = 5000, hitsMax = 5000\<rparr>],
              r_my = True, r_controller_level = 8, r_energyCapacityAvailable = 12900\<rparr>"

abbreviation roomB :: Room where
  "roomB \<equiv> \<lparr>r_name = ''W2N2'',
              r_spawns = [\<lparr>st_pos = \<lparr>pos_x = 10, pos_y = 10, pos_roomName = ''W2N2''\<rparr>,
                           hits = 5000, hitsMax = 5000\<rparr>],
              r_my = True, r_controller_level = 7, r_energyCapacityAvailable = 5600\<rparr>"

abbreviation roomC :: Room where
  "roomC \<equiv> \<lparr>r_name = ''W9N9'',
              r_spawns = [\<lparr>st_pos = \<lparr>pos_x = 30, pos_y = 30, pos_roomName = ''W9N9''\<rparr>,
                           hits = 5000, hitsMax = 5000\<rparr>],
              r_my = True, r_controller_level = 8, r_energyCapacityAvailable = 12900\<rparr>"

text \<open>
  A game at tick 1000 with three colony rooms: W1N1 has a route and a complete path of
  length 42 to the anchor, W2N2 has no route, W9N9 is at linear distance 12.
\<close>

abbreviation gameX :: Game where
  "gameX \<equiv>
     \<lparr>g_time = 1000,
      g_rooms = [''W1N1'' \<mapsto> roomA, ''W2N2'' \<mapsto> roomB, ''W9N9'' \<mapsto> roomC],
      getAllColonyRooms = [roomA, roomB, roomC],
      getRoomLinearDistance = (\<lambda>a b. if a = ''W9N9'' then 12 else 3),
      findRoute = (\<lambda>a b. if a = ''W2N2'' then None else Some [(a, True), (b, True)]),
      findPathToRoom = (\<lambda>p rn route. \<lparr>p_path = replicate 42 p, incomplete = False\<rparr>)\<rparr>"

abbreviation iniX :: SpawnGroupInitializer where
  "iniX \<equiv> \<lparr>i_ref = ''flag1'', i_pos = \<lparr>pos_x = 25, pos_y = 25, pos_roomName = ''W5N5''\<rparr>\<rparr>"

abbreviation noSettings :: PartialSettings where
  "noSettings \<equiv> \<lparr>p_maxPathDistance = None, p_requiredRCL = None, p_flexibleEnergy = None\<rparr>"

text \<open>
  Three producers with next availability 0, 10, 5 at cached distances 50, 20, 5; a request
  whose body costs 100 and one whose body costs 20000; a body's cost is 50 per part; a
  hatchery's \<open>enqueue\<close> appends to its queue.
\<close>

abbreviation hatcheryA :: Hatchery where
  "hatcheryA \<equiv> \<lparr>h_roomName = ''W1N1'', h_energyCapacityAvailable = 12900,
                  h_nextAvailability = 0, h_queue = []\<rparr>"

abbreviation hatcheryB :: Hatchery where
  "hatcheryB \<equiv> \<lparr>h_roomName = ''W2N2'', h_energyCapacityAvailable = 5600,
                  h_nextAvailability = 10, h_queue = []\<rparr>"

abbreviation hatcheryC :: Hatchery where
  "hatcheryC \<equiv> \<lparr>h_roomName = ''W3N3'', h_energyCapacityAvailable = 5600,
                  h_nextAvailability = 5, h_queue = []\<rparr>"

abbreviation requestSmall :: SpawnRequest where
  "requestSmall \<equiv> \<lparr>req_role = ''zergling'', req_generateBody = (\<lambda>e. [''attack'', ''move''])\<rparr>"

abbreviation requestHuge :: SpawnRequest where
  "requestHuge \<equiv> \<lparr>req_role = ''hydralisk'', req_generateBody = (\<lambda>e. replicate 400 ''move'')\<rparr>"

abbreviation bodyCost50 :: "string list \<Rightarrow> nat" where
  "bodyCost50 \<equiv> (\<lambda>body. 50 * length body)"

abbreviation appendToQueue :: "SpawnRequest \<Rightarrow> Hatchery \<Rightarrow> Hatchery" where
  "appendToQueue \<equiv> (\<lambda>request h. h\<lparr>h_queue := h_queue h @ [request]\<rparr>)"

abbreviation groupX :: SpawnGroup where
  "groupX \<equiv>
     \<lparr>sg_memory = \<lparr>colonies = [''W1N1'', ''W2N2'', ''W3N3''],
                    distances = [''W1N1'' \<mapsto> 50, ''W2N2'' \<mapsto> 20, ''W3N3'' \<mapsto> 5],
                    routes = Map.empty, expiration = 2003\<rparr>,
      sg_requests = [], sg_roomName = ''W5N5'',
      sg_colonyNames = [''W1N1'', ''W2N2'', ''W3N3''],
      sg_energyCapacityAvailable = Some 12900, sg_ref = ''flag1:SG'',
      sg_settings = defaultSettings\<rparr>"






section \<open>Properties of the scheduler\<close>

subsection \<open>Failure isolation\<close>

lemma passiveTasks_fields:
  "dInit (passiveTasks U) d s = (out_dInit U d, s)"
  "dRun (passiveTasks U) d s = (out_dRun U d, s)"
  "oPreInit (passiveTasks U) ov s = (out_oPreInit U ov, s)"
  "oInit (passiveTasks U) ov s = (out_oInit U ov, s)"
  "oRun (passiveTasks U) ov s = (out_oRun U ov, s)"
  by (simp_all add: passiveTasks_def)

lemma isOverlordSuspended_frame:
  "overlords (snd (isOverlordSuspended now ov s)) = overlords s"
  "overlordsByColony (snd (isOverlordSuspended now ov s)) = overlordsByColony s"
  "sorted_flag (snd (isOverlordSuspended now ov s)) = sorted_flag s"
  "directives (snd (isOverlordSuspended now ov s)) = directives s"
  "exceptions (snd (isOverlordSuspended now ov s)) = exceptions s"
  "calls (snd (isOverlordSuspended now ov s)) = calls s"
  by (auto simp: isOverlordSuspended_def split: option.splits)

lemma isOverlordSuspended_status:
  "fst (isOverlordSuspended now ov' (snd (isOverlordSuspended now ov s)))
     = fst (isOverlordSuspended now ov' s)"
  by (auto simp: isOverlordSuspended_def split: option.splits)

lemma status_cong:
  "suspendUntil s' = suspendUntil s
    \<Longrightarrow> fst (isOverlordSuspended now ov s') = fst (isOverlordSuspended now ov s)"
  by (auto simp: isOverlordSuspended_def split: option.splits)

lemma active_cong:
  "(\<And>ov. fst (isOverlordSuspended now ov s') = fst (isOverlordSuspended now ov s))
    \<Longrightarrow> active now s' os = active now s os"
  by (simp add: active_def)

lemma init_directives_passive:
  "i \<le> length (directives s) \<Longrightarrow>
   init_directives (passiveTasks U) i s =
     Some (map_option Propagated (firstThrown (out_dInit U) (drop i (directives s))),
           s\<lparr>calls := calls s @ map (DirectiveInit \<circ> d_name)
                                    (invoked (out_dInit U) (drop i (directives s)))\<rparr>)"
proof (induction "length (directives s) - i" arbitrary: i s)
  case 0
  then have "\<not> i < length (directives s)" "drop i (directives s) = []" by simp_all
  then show ?case by (subst init_directives.simps) simp
next
  case (Suc n)
  then have lt: "i < length (directives s)" by simp
  let ?d = "directives s ! i"
  let ?s1 = "logCall (DirectiveInit (d_name ?d)) s"
  have dr: "drop i (directives s) = ?d # drop (Suc i) (directives s)"
    using lt by (simp add: Cons_nth_drop_Suc)
  have d1: "directives ?s1 = directives s" by (simp add: logCall_def)
  show ?case
  proof (cases "out_dInit U ?d")
    case (Some t)
    then show ?thesis
      by (subst init_directives.simps) (simp add: lt passiveTasks_fields dr logCall_def)
  next
    case None
    have n: "n = length (directives ?s1) - Suc i" using Suc.hyps(2) by (simp add: d1)
    have le: "Suc i \<le> length (directives ?s1)" using lt by (simp add: d1)
    have step: "init_directives (passiveTasks U) i s = init_directives (passiveTasks U) (Suc i) ?s1"
      by (subst init_directives.simps) (simp add: lt passiveTasks_fields None)
    show ?thesis
      unfolding step Suc.hyps(1) [OF n le]
      by (simp add: d1 dr None logCall_def)
  qed
qed

lemma run_directives_passive:
  "i \<le> length (directives s) \<Longrightarrow>
   run_directives (passiveTasks U) i s =
     Some (map_option Propagated (firstThrown (out_dRun U) (drop i (directives s))),
           s\<lparr>calls := calls s @ map (DirectiveRun \<circ> d_name)
                                    (invoked (out_dRun U) (drop i (directives s)))\<rparr>)"
proof (induction "length (directives s) - i" arbitrary: i s)
  case 0
  then have "\<not> i < length (directives s)" "drop i (directives s) = []" by simp_all
  then show ?case by (subst run_directives.simps) simp
next
  case (Suc n)
  then have lt: "i < length (directives s)" by simp
  let ?d = "directives s ! i"
  let ?s1 = "logCall (DirectiveRun (d_name ?d)) s"
  have dr: "drop i (directives s) = ?d # drop (Suc i) (directives s)"
    using lt by (simp add: Cons_nth_drop_Suc)
  have d1: "directives ?s1 = directives s" by (simp add: logCall_def)
  show ?case
  proof (cases "out_dRun U ?d")
    case (Some t)
    then show ?thesis
      by (subst run_directives.simps) (simp add: lt passiveTasks_fields dr logCall_def)
  next
    case None
    have n: "n = length (directives ?s1) - Suc i" using Suc.hyps(2) by (simp add: d1)
    have le: "Suc i \<le> length (directives ?s1)" using lt by (simp add: d1)
    have step: "run_directives (passiveTasks U) i s = run_directives (passiveTasks U) (Suc i) ?s1"
      by (subst run_directives.simps) (simp add: lt passiveTasks_fields None)
    show ?thesis
      unfolding step Suc.hyps(1) [OF n le]
      by (simp add: d1 dr None logCall_def)
  qed
qed

lemma firstThrown_None: "firstThrown f xs = None \<longleftrightarrow> (\<forall>x\<in>set xs. f x = None)"
  by (induction xs) (auto split: option.splits)

lemma invoked_all: "\<forall>x\<in>set xs. f x = None \<Longrightarrow> invoked f xs = xs"
  by (induction xs) auto

lemma annotate_carries: "carries cb e (annotate cb identifier e)"
  by (auto simp: carries_def annotate_def newline_def prefix_def suffix_def)


lemma thrownObjects_Nil: "thrownObjects f [] = []"
  by (simp add: thrownObjects_def map_filter_simps)

lemma thrownObjects_Cons:
  "thrownObjects f (ov # os) =
     (case f ov of Some (ErrorObject e) \<Rightarrow> e # thrownObjects f os | _ \<Rightarrow> thrownObjects f os)"
  by (simp add: thrownObjects_def map_filter_simps split: option.splits Thrown.splits)

lemma try_cb_passive:
  "f \<noteq> Some NonObject \<Longrightarrow>
   try_cb True cb None (\<lambda>s. (f, s)) s =
     (None, s\<lparr>exceptions := exceptions s
                 @ map (annotate cb None) (case f of Some (ErrorObject e) \<Rightarrow> [e] | _ \<Rightarrow> [])\<rparr>)"
  by (cases f) (auto simp: try_cb_def split: Thrown.splits)

lemma init_overlords_ok:
  assumes pre: "\<forall>ov\<in>set os. out_oPreInit U ov = None \<and> out_oInit U ov \<noteq> Some NonObject"
  shows "overlords s = os \<Longrightarrow> i \<le> length os \<Longrightarrow>
     \<exists>s'. init_overlords True (passiveTasks U) now i s = Some (None, s')
       \<and> overlords s' = os \<and> overlordsByColony s' = overlordsByColony s
       \<and> sorted_flag s' = sorted_flag s \<and> directives s' = directives s
       \<and> exceptions s' = exceptions s
            @ map (annotate cb_init None) (thrownObjects (out_oInit U) (active now s (drop i os)))
       \<and> calls s' = calls s @ concat (map initCalls (active now s (drop i os)))"
proof (induction "length os - i" arbitrary: i s)
  case 0
  then have "\<not> i < length (overlords s)" "drop i os = []" by simp_all
  then show ?case
    using 0 by (subst init_overlords.simps) (simp add: active_def thrownObjects_Nil)
next
  case (Suc n)
  then have lt: "i < length (overlords s)" and os: "overlords s = os" by simp_all
  let ?ov = "overlords s ! i"
  have mem: "?ov \<in> set os" using lt os by auto
  have dr: "drop i os = ?ov # drop (Suc i) os"
    using lt os by (simp add: Cons_nth_drop_Suc)
  obtain b s1 where r: "isOverlordSuspended now ?ov s = (b, s1)"
    by (cases "isOverlordSuspended now ?ov s")
  have s1: "s1 = snd (isOverlordSuspended now ?ov s)" and b: "b = fst (isOverlordSuspended now ?ov s)"
    using r by simp_all
  have fr: "overlords s1 = os" "overlordsByColony s1 = overlordsByColony s"
    "sorted_flag s1 = sorted_flag s" "directives s1 = directives s"
    "exceptions s1 = exceptions s" "calls s1 = calls s"
    by (simp_all add: s1 isOverlordSuspended_frame os)
  have st: "\<And>x. fst (isOverlordSuspended now x s1) = fst (isOverlordSuspended now x s)"
    by (simp add: s1 isOverlordSuspended_status)
  have n: "n = length os - Suc i" using Suc.hyps(2) by simp
  have le: "Suc i \<le> length os" using lt os by simp
  show ?case
  proof (cases b)
    case True
    have step: "init_overlords True (passiveTasks U) now i s
                  = init_overlords True (passiveTasks U) now (Suc i) s1"
      by (subst init_overlords.simps) (simp add: lt r True)
    have act: "active now s (drop i os) = active now s1 (drop (Suc i) os)"
      unfolding dr using True b st by (simp add: active_def)
    from Suc.hyps(1) [OF n fr(1) le] show ?thesis
      unfolding step act fr by simp
  next
    case False
    let ?s2 = "logCall (OverlordPreInit (o_ref ?ov)) s1"
    let ?s2' = "logCall (OverlordInit (o_ref ?ov)) ?s2"
    let ?xs = "case out_oInit U ?ov of Some (ErrorObject e) \<Rightarrow> [e] | _ \<Rightarrow> []"
    let ?s3 = "?s2'\<lparr>exceptions := exceptions ?s2' @ map (annotate cb_init None) ?xs\<rparr>"
    from pre mem have p: "out_oPreInit U ?ov = None" and q: "out_oInit U ?ov \<noteq> Some NonObject"
      by simp_all
    have t: "try_cb True cb_init None (oInit (passiveTasks U) ?ov) ?s2' = (None, ?s3)"
      using try_cb_passive [OF q, of cb_init ?s2'] by (simp add: passiveTasks_def)
    have step: "init_overlords True (passiveTasks U) now i s
                  = init_overlords True (passiveTasks U) now (Suc i) ?s3"
      by (subst init_overlords.simps) (simp add: lt r False passiveTasks_fields p t [simplified passiveTasks_fields])
    have f3: "overlords ?s3 = os" "overlordsByColony ?s3 = overlordsByColony s"
      "sorted_flag ?s3 = sorted_flag s" "directives ?s3 = directives s"
      "exceptions ?s3 = exceptions s @ map (annotate cb_init None) ?xs"
      "calls ?s3 = calls s @ initCalls ?ov"
      by (simp_all add: logCall_def fr initCalls_def)
    have "suspendUntil ?s3 = suspendUntil s1" by (simp add: logCall_def)
    then have st3: "\<And>x. fst (isOverlordSuspended now x ?s3) = fst (isOverlordSuspended now x s)"
      using st status_cong by metis
    have act: "active now s (drop i os) = ?ov # active now ?s3 (drop (Suc i) os)"
      unfolding dr using False b st3 by (simp add: active_def)
    have tx: "thrownObjects (out_oInit U) (?ov # rest) = ?xs @ thrownObjects (out_oInit U) rest" for rest
      by (simp add: thrownObjects_Cons split: option.splits Thrown.splits)
    from Suc.hyps(1) [OF n f3(1) le] show ?thesis
      unfolding step act f3 tx by simp
  qed
qed

lemma run_overlords_ok:
  assumes pre: "\<forall>ov\<in>set os. out_oRun U ov \<noteq> Some NonObject"
  shows "overlords s = os \<Longrightarrow> i \<le> length os \<Longrightarrow>
     \<exists>s'. run_overlords True (passiveTasks U) now i s = Some (None, s')
       \<and> overlords s' = os \<and> overlordsByColony s' = overlordsByColony s
       \<and> sorted_flag s' = sorted_flag s \<and> directives s' = directives s
       \<and> exceptions s' = exceptions s
            @ map (annotate cb_run None) (thrownObjects (out_oRun U) (active now s (drop i os)))
       \<and> calls s' = calls s @ concat (map runCalls (active now s (drop i os)))"
proof (induction "length os - i" arbitrary: i s)
  case 0
  then have "\<not> i < length (overlords s)" "drop i os = []" by simp_all
  then show ?case
    using 0 by (subst run_overlords.simps) (simp add: active_def thrownObjects_Nil)
next
  case (Suc n)
  then have lt: "i < length (overlords s)" and os: "overlords s = os" by simp_all
  let ?ov = "overlords s ! i"
  have mem: "?ov \<in> set os" using lt os by auto
  have dr: "drop i os = ?ov # drop (Suc i) os"
    using lt os by (simp add: Cons_nth_drop_Suc)
  obtain b s1 where r: "isOverlordSuspended now ?ov s = (b, s1)"
    by (cases "isOverlordSuspended now ?ov s")
  have s1: "s1 = snd (isOverlordSuspended now ?ov s)" and b: "b = fst (isOverlordSuspended now ?ov s)"
    using r by simp_all
  have fr: "overlords s1 = os" "overlordsByColony s1 = overlordsByColony s"
    "sorted_flag s1 = sorted_flag s" "directives s1 = directives s"
    "exceptions s1 = exceptions s" "calls s1 = calls s"
    by (simp_all add: s1 isOverlordSuspended_frame os)
  have st: "\<And>x. fst (isOverlordSuspended now x s1) = fst (isOverlordSuspended now x s)"
    by (simp add: s1 isOverlordSuspended_status)
  have n: "n = length os - Suc i" using Suc.hyps(2) by simp
  have le: "Suc i \<le> length os" using lt os by simp
  show ?case
  proof (cases b)
    case True
    have step: "run_overlords True (passiveTasks U) now i s
                  = run_overlords True (passiveTasks U) now (Suc i) s1"
      by (subst run_overlords.simps) (simp add: lt r True)
    have act: "active now s (drop i os) = active now s1 (drop (Suc i) os)"
      unfolding dr using True b st by (simp add: active_def)
    from Suc.hyps(1) [OF n fr(1) le] show ?thesis
      unfolding step act fr by simp
  next
    case False
    let ?s2' = "logCall (OverlordRun (o_ref ?ov)) s1"
    let ?xs = "case out_oRun U ?ov of Some (ErrorObject e) \<Rightarrow> [e] | _ \<Rightarrow> []"
    let ?s3 = "?s2'\<lparr>exceptions := exceptions ?s2' @ map (annotate cb_run None) ?xs\<rparr>"
    from pre mem have q: "out_oRun U ?ov \<noteq> Some NonObject" by simp
    have t: "try_cb True cb_run None (oRun (passiveTasks U) ?ov) ?s2' = (None, ?s3)"
      using try_cb_passive [OF q, of cb_run ?s2'] by (simp add: passiveTasks_def)
    have step: "run_overlords True (passiveTasks U) now i s
                  = run_overlords True (passiveTasks U) now (Suc i) ?s3"
      by (subst run_overlords.simps) (simp add: lt r False t)
    have f3: "overlords ?s3 = os" "overlordsByColony ?s3 = overlordsByColony s"
      "sorted_flag ?s3 = sorted_flag s" "directives ?s3 = directives s"
      "exceptions ?s3 = exceptions s @ map (annotate cb_run None) ?xs"
      "calls ?s3 = calls s @ runCalls ?ov"
      by (simp_all add: logCall_def fr runCalls_def)
    have "suspendUntil ?s3 = suspendUntil s1" by (simp add: logCall_def)
    then have st3: "\<And>x. fst (isOverlordSuspended now x ?s3) = fst (isOverlordSuspended now x s)"
      using st status_cong by metis
    have act: "active now s (drop i os) = ?ov # active now ?s3 (drop (Suc i) os)"
      unfolding dr using False b st3 by (simp add: active_def)
    have tx: "thrownObjects (out_oRun U) (?ov # rest) = ?xs @ thrownObjects (out_oRun U) rest" for rest
      by (simp add: thrownObjects_Cons split: option.splits Thrown.splits)
    from Suc.hyps(1) [OF n f3(1) le] show ?thesis
      unfolding step act f3 tx by simp
  qed
qed


lemma sort_overlords_frame:
  "suspendUntil (sort_overlords s) = suspendUntil s"
  "exceptions (sort_overlords s) = exceptions s"
  "calls (sort_overlords s) = calls s"
  "directives (sort_overlords s) = directives s"
  "set (overlords (sort_overlords s)) = set (overlords s)"
  by (simp_all add: sort_overlords_def)

lemma carries_annotated:
  "list_all2 (carries cb) es (map (annotate cb identifier) es)"
  by (simp add: list.rel_map list_all2_same annotate_carries)

lemma init_passive_ok:
  assumes d: "\<forall>d\<in>set (directives s). out_dInit U d = None"
    and p: "\<forall>ov\<in>set (overlords s). out_oPreInit U ov = None \<and> out_oInit U ov \<noteq> Some NonObject"
  shows "\<exists>s'. init True (passiveTasks U) now s = Some (None, s')
     \<and> overlords s' = overlords (sort_overlords s)
     \<and> overlordsByColony s' = overlordsByColony (sort_overlords s)
     \<and> sorted_flag s' = sorted_flag (sort_overlords s)
     \<and> directives s' = directives s
     \<and> exceptions s' = exceptions s
          @ map (annotate cb_init None)
              (thrownObjects (out_oInit U) (active now s (overlords (sort_overlords s))))
     \<and> calls s' = calls s @ map (DirectiveInit \<circ> d_name) (directives s)
          @ concat (map initCalls (active now s (overlords (sort_overlords s))))"
proof -
  let ?s1 = "s\<lparr>calls := calls s @ map (DirectiveInit \<circ> d_name) (directives s)\<rparr>"
  let ?s2 = "sort_overlords ?s1"
  let ?os = "overlords (sort_overlords s)"
  have di: "init_directives (passiveTasks U) 0 s = Some (None, ?s1)"
    using d init_directives_passive [of 0 s U]
    by (simp add: invoked_all iffD2 [OF firstThrown_None])
  have i: "init True (passiveTasks U) now s = init_overlords True (passiveTasks U) now 0 ?s2"
    by (simp add: init_def di)
  have o2: "overlords ?s2 = ?os" "overlordsByColony ?s2 = overlordsByColony (sort_overlords s)"
    "sorted_flag ?s2 = sorted_flag (sort_overlords s)" "directives ?s2 = directives s"
    "exceptions ?s2 = exceptions s"
    "calls ?s2 = calls s @ map (DirectiveInit \<circ> d_name) (directives s)"
    by (simp_all add: sort_overlords_def)
  have p2: "\<forall>ov\<in>set ?os. out_oPreInit U ov = None \<and> out_oInit U ov \<noteq> Some NonObject"
    using p by (simp add: sort_overlords_frame)
  have a2: "active now ?s2 ?os = active now s ?os"
    by (rule active_cong, rule status_cong) (simp add: sort_overlords_def)
  from init_overlords_ok [OF p2 o2(1), of 0 now]
  show ?thesis by (simp add: i o2 a2)
qed

lemma run_passive_ok:
  assumes d: "\<forall>d\<in>set (directives s). out_dRun U d = None"
    and p: "\<forall>ov\<in>set (overlords s). out_oRun U ov \<noteq> Some NonObject"
  shows "\<exists>s'. run True (passiveTasks U) now s = Some (None, s')
     \<and> overlords s' = overlords s
     \<and> overlordsByColony s' = overlordsByColony s
     \<and> sorted_flag s' = sorted_flag s
     \<and> directives s' = directives s
     \<and> exceptions s' = exceptions s
          @ map (annotate cb_run None) (thrownObjects (out_oRun U) (active now s (overlords s)))
     \<and> calls s' = calls s @ map (DirectiveRun \<circ> d_name) (directives s)
          @ concat (map runCalls (active now s (overlords s)))"
proof -
  let ?s1 = "s\<lparr>calls := calls s @ map (DirectiveRun \<circ> d_name) (directives s)\<rparr>"
  have di: "run_directives (passiveTasks U) 0 s = Some (None, ?s1)"
    using d run_directives_passive [of 0 s U]
    by (simp add: invoked_all iffD2 [OF firstThrown_None])
  have i: "run True (passiveTasks U) now s = run_overlords True (passiveTasks U) now 0 ?s1"
    by (simp add: run_def di)
  have o1: "overlords ?s1 = overlords s" by simp
  have a1: "active now ?s1 (overlords s) = active now s (overlords s)"
    by (rule active_cong, rule status_cong) simp
  from run_overlords_ok [OF p o1, of 0 now]
  show ?thesis by (simp add: i a1)
qed

text \<open>
  C2 (as amended), for task bodies that leave the scheduler as it is. With \<open>USE_TRY_CATCH\<close>
  set, when no Directive's \<open>init\<close> (\<open>run\<close>) and no Overlord's \<open>preInit\<close> throws and what the
  Overlords throw are error objects, \<open>Overseer.init\<close> (\<open>Overseer.run\<close>) returns normally:
  every Overlord that is not suspended is invoked, in list order, whatever the others did,
  and for each error object thrown an exception is appended to \<open>Overmind.exceptions\<close>, in
  order, with the same stack and a name that carries the text of the callback, the original
  name and the stack. The wrapper does not cover the Directives: when a Directive's \<open>init\<close>
  (\<open>run\<close>) throws, whatever the setting, the thrown value leaves \<open>Overseer.init\<close>
  (\<open>Overseer.run\<close>) at once; nothing is appended to the exception list, and the Directives
  after it and all the Overlords are not invoked.
\<close>

theorem overlord_failures_isolated:
  "((\<forall>d\<in>set (directives s). out_dInit U d = None)
      \<and> (\<forall>ov\<in>set (overlords s). out_oPreInit U ov = None \<and> out_oInit U ov \<noteq> Some NonObject) \<longrightarrow>
     (\<exists>s' xs. init True (passiveTasks U) now s = Some (None, s')
        \<and> calls s' = calls s @ map (DirectiveInit \<circ> d_name) (directives s)
             @ concat (map initCalls (active now s (overlords (sort_overlords s))))
        \<and> exceptions s' = exceptions s @ xs
        \<and> list_all2 (carries cb_init)
             (thrownObjects (out_oInit U) (active now s (overlords (sort_overlords s)))) xs))
   \<and> ((\<forall>d\<in>set (directives s). out_dRun U d = None)
      \<and> (\<forall>ov\<in>set (overlords s). out_oRun U ov \<noteq> Some NonObject) \<longrightarrow>
     (\<exists>s' xs. run True (passiveTasks U) now s = Some (None, s')
        \<and> calls s' = calls s @ map (DirectiveRun \<circ> d_name) (directives s)
             @ concat (map runCalls (active now s (overlords s)))
        \<and> exceptions s' = exceptions s @ xs
        \<and> list_all2 (carries cb_run) (thrownObjects (out_oRun U) (active now s (overlords s))) xs))
   \<and> (firstThrown (out_dInit U) (directives s) = Some t \<longrightarrow>
        init tc (passiveTasks U) now s
          = Some (Some (Propagated t),
                  s\<lparr>calls := calls s @ map (DirectiveInit \<circ> d_name)
                                           (invoked (out_dInit U) (directives s))\<rparr>))
   \<and> (firstThrown (out_dRun U) (directives s) = Some t \<longrightarrow>
        run tc (passiveTasks U) now s
          = Some (Some (Propagated t),
                  s\<lparr>calls := calls s @ map (DirectiveRun \<circ> d_name)
                                           (invoked (out_dRun U) (directives s))\<rparr>))"
proof (intro conjI impI)
  assume a: "(\<forall>d\<in>set (directives s). out_dInit U d = None)
      \<and> (\<forall>ov\<in>set (overlords s). out_oPreInit U ov = None \<and> out_oInit U ov \<noteq> Some NonObject)"
  then have d: "\<forall>d\<in>set (directives s). out_dInit U d = None"
    and p: "\<forall>ov\<in>set (overlords s). out_oPreInit U ov = None \<and> out_oInit U ov \<noteq> Some NonObject"
    by blast+
  from init_passive_ok [OF d p, of now] obtain s' where
    r: "init True (passiveTasks U) now s = Some (None, s')"
    and e: "exceptions s' = exceptions s
          @ map (annotate cb_init None)
              (thrownObjects (out_oInit U) (active now s (overlords (sort_overlords s))))"
    and c: "calls s' = calls s @ map (DirectiveInit \<circ> d_name) (directives s)
          @ concat (map initCalls (active now s (overlords (sort_overlords s))))"
    by blast
  show "\<exists>s' xs. init True (passiveTasks U) now s = Some (None, s')
        \<and> calls s' = calls s @ map (DirectiveInit \<circ> d_name) (directives s)
             @ concat (map initCalls (active now s (overlords (sort_overlords s))))
        \<and> exceptions s' = exceptions s @ xs
        \<and> list_all2 (carries cb_init)
             (thrownObjects (out_oInit U) (active now s (overlords (sort_overlords s)))) xs"
    using r e c carries_annotated by blast
next
  assume a: "(\<forall>d\<in>set (directives s). out_dRun U d = None)
      \<and> (\<forall>ov\<in>set (overlords s). out_oRun U ov \<noteq> Some NonObject)"
  then have d: "\<forall>d\<in>set (directives s). out_dRun U d = None"
    and p: "\<forall>ov\<in>set (overlords s). out_oRun U ov \<noteq> Some NonObject"
    by blast+
  from run_passive_ok [OF d p, of now] obtain s' where
    r: "run True (passiveTasks U) now s = Some (None, s')"
    and e: "exceptions s' = exceptions s
          @ map (annotate cb_run None) (thrownObjects (out_oRun U) (active now s (overlords s)))"
    and c: "calls s' = calls s @ map (DirectiveRun \<circ> d_name) (directives s)
          @ concat (map runCalls (active now s (overlords s)))"
    by blast
  show "\<exists>s' xs. run True (passiveTasks U) now s = Some (None, s')
        \<and> calls s' = calls s @ map (DirectiveRun \<circ> d_name) (directives s)
             @ concat (map runCalls (active now s (overlords s)))
        \<and> exceptions s' = exceptions s @ xs
        \<and> list_all2 (carries cb_run) (thrownObjects (out_oRun U) (active now s (overlords s))) xs"
    using r e c carries_annotated by blast
next
  assume "firstThrown (out_dInit U) (directives s) = Some t"
  then show "init tc (passiveTasks U) now s
          = Some (Some (Propagated t),
                  s\<lparr>calls := calls s @ map (DirectiveInit \<circ> d_name)
                                           (invoked (out_dInit U) (directives s))\<rparr>)"
    using init_directives_passive [of 0 s U] by (simp add: init_def)
next
  assume "firstThrown (out_dRun U) (directives s) = Some t"
  then show "run tc (passiveTasks U) now s
          = Some (Some (Propagated t),
                  s\<lparr>calls := calls s @ map (DirectiveRun \<circ> d_name)
                                           (invoked (out_dRun U) (directives s))\<rparr>)"
    using run_directives_passive [of 0 s U] by (simp add: run_def)
qed


subsection \<open>The suspension ledger\<close>

lemma reads_before:
  "suspendUntil s (o_ref ov) = Some T \<Longrightarrow> T \<noteq> 0 \<Longrightarrow> \<forall>u\<in>set pre. int u < T
    \<Longrightarrow> reads pre ov s = (replicate (length pre) True, s)"
  by (induction pre) (auto simp: isOverlordSuspended_def)

lemma reads_absent:
  "suspendUntil s (o_ref ov) = None \<Longrightarrow> reads ts ov s = (replicate (length ts) False, s)"
  by (induction ts) (auto simp: isOverlordSuspended_def)

lemma reads_append:
  "reads (xs @ ys) ov s =
     (case reads xs ov s of (bs, s1) \<Rightarrow> (case reads ys ov s1 of (cs, s2) \<Rightarrow> (bs @ cs, s2)))"
  by (induction xs arbitrary: s) (auto split: prod.splits)

lemma read_expired:
  "suspendUntil s (o_ref ov) = Some T \<Longrightarrow> T \<noteq> 0 \<Longrightarrow> T \<le> int t1
    \<Longrightarrow> isOverlordSuspended t1 ov s = (False, s\<lparr>suspendUntil := (suspendUntil s)(o_ref ov := None)\<rparr>)"
  by (simp add: isOverlordSuspended_def)

text \<open>
  The suspension window, and the single deletion of a record whose resume tick is not 0.
  After \<open>suspendOverlordFor(o, d)\<close> at tick \<open>t\<close>, \<open>isOverlordSuspended(o)\<close> is true at every
  tick of \<open>[t, t+d-1]\<close>, leaving the ledger as it is, and false at every tick from \<open>t+d\<close>
  on. A record with a resume tick \<open>T\<close> other than 0 is read as suspended at every tick below
  \<open>T\<close>, is deleted by the first read at a tick \<open>\<ge> T\<close>, and every later read finds no record
  and deletes nothing.
\<close>

theorem suspension_window_and_single_deletion:
  "(int t \<le> int t' \<and> int t' < int t + d \<longrightarrow>
      isOverlordSuspended t' ov (suspendOverlordFor t ov d s) = (True, suspendOverlordFor t ov d s))
   \<and> (int t + d \<le> int t' \<longrightarrow> \<not> fst (isOverlordSuspended t' ov (suspendOverlordFor t ov d s)))
   \<and> (suspendUntil s (o_ref ov) = Some T \<and> T \<noteq> 0 \<and> (\<forall>u\<in>set pre. int u < T) \<and> T \<le> int t1 \<longrightarrow>
        reads pre ov s = (replicate (length pre) True, s)
        \<and> reads (pre @ [t1]) ov s =
            (replicate (length pre) True @ [False],
             s\<lparr>suspendUntil := (suspendUntil s)(o_ref ov := None)\<rparr>)
        \<and> reads (pre @ t1 # post) ov s =
            (replicate (length pre) True @ False # replicate (length post) False,
             s\<lparr>suspendUntil := (suspendUntil s)(o_ref ov := None)\<rparr>))"
proof (intro conjI impI)
  assume "int t \<le> int t' \<and> int t' < int t + d"
  then show "isOverlordSuspended t' ov (suspendOverlordFor t ov d s) = (True, suspendOverlordFor t ov d s)"
    by (auto simp: isOverlordSuspended_def suspendOverlordFor_def)
next
  assume "int t + d \<le> int t'"
  then show "\<not> fst (isOverlordSuspended t' ov (suspendOverlordFor t ov d s))"
    by (auto simp: isOverlordSuspended_def suspendOverlordFor_def)
next
  assume a: "suspendUntil s (o_ref ov) = Some T \<and> T \<noteq> 0 \<and> (\<forall>u\<in>set pre. int u < T) \<and> T \<le> int t1"
  let ?s' = "s\<lparr>suspendUntil := (suspendUntil s)(o_ref ov := None)\<rparr>"
  from a show pre: "reads pre ov s = (replicate (length pre) True, s)"
    by (simp add: reads_before)
  from a have one: "isOverlordSuspended t1 ov s = (False, ?s')"
    by (simp add: read_expired)
  have gone: "suspendUntil ?s' (o_ref ov) = None" by simp
  show "reads (pre @ [t1]) ov s = (replicate (length pre) True @ [False], ?s')"
    by (simp add: reads_append pre one)
  show "reads (pre @ t1 # post) ov s =
          (replicate (length pre) True @ False # replicate (length post) False, ?s')"
    using reads_absent [OF gone, of post] by (simp add: reads_append pre one)
qed


subsection \<open>Registration and removal\<close>

lemma removeOverlord_fields:
  "overlords (removeOverlord ov s) = filter (\<lambda>x. o_ref x \<noteq> o_ref ov) (overlords s)"
  "overlordsByColony (removeOverlord ov s) c =
     (if c = o_colony ov then map_option (filter (\<lambda>x. o_ref x \<noteq> o_ref ov)) (overlordsByColony s c)
      else overlordsByColony s c)"
  "directives (removeOverlord ov s) = directives s"
  "sorted_flag (removeOverlord ov s) = sorted_flag s"
  by (auto simp: removeOverlord_def Let_def split: option.splits)

lemma registerOverlord_fields:
  "overlords (registerOverlord ov s) = overlords s @ [ov]"
  "overlordsByColony (registerOverlord ov s) c =
     (if c = o_colony ov
      then Some ((case overlordsByColony s c of None \<Rightarrow> [] | Some os \<Rightarrow> os) @ [ov])
      else overlordsByColony s c)"
  "directives (registerOverlord ov s) = directives s"
  "sorted_flag (registerOverlord ov s) = sorted_flag s"
  by (auto simp: registerOverlord_def Let_def split: option.splits)

lemma fold_removeOverlord_overlords:
  "overlords (fold removeOverlord os s) = filter (\<lambda>x. o_ref x \<notin> o_ref ` set os) (overlords s)"
  by (induction os arbitrary: s) (auto simp: removeOverlord_fields intro: filter_cong)

lemma fold_removeOverlord_directives:
  "directives (fold removeOverlord os s) = directives s"
  by (induction os arbitrary: s) (auto simp: removeOverlord_fields)

lemma fold_removeOverlord_byColony:
  "overlordsByColony (fold removeOverlord os s) c =
     map_option (filter (\<lambda>x. o_ref x \<notin> o_ref ` {ov \<in> set os. o_colony ov = c}))
       (overlordsByColony s c)"
proof (induction os arbitrary: s)
  case Nil
  then show ?case by (simp add: option.map_ident)
next
  case (Cons ov os)
  show ?case
    by (cases "overlordsByColony s c")
       (auto simp: Cons.IH removeOverlord_fields intro!: filter_cong)
qed

lemma colony_keyed_new: "colony_keyed (new_Overseer mem exs)"
  by (simp add: colony_keyed_def new_Overseer_def)

lemma colony_keyed_register: "colony_keyed s \<Longrightarrow> colony_keyed (registerOverlord ov s)"
  unfolding colony_keyed_def registerOverlord_fields
  by (auto split: if_splits option.splits) metis

lemma colony_keyed_sort: "colony_keyed s \<Longrightarrow> colony_keyed (sort_overlords s)"
  by (auto simp: colony_keyed_def sort_overlords_def)

lemma colony_keyed_removeDirective: "colony_keyed s \<Longrightarrow> colony_keyed (removeDirective d s)"
  by (auto simp: colony_keyed_def removeDirective_def fold_removeOverlord_byColony)

text \<open>
  C8. After \<open>removeDirective(d)\<close> no directive named as \<open>d\<close> is registered, and for every
  Overlord \<open>d\<close> owns: no Overlord with its \<open>ref\<close> is in the global list or in the list of
  its colony, and, the lists being keyed by the colony of their members (as registration
  keeps them), the Overlord is in no colony's list at all.
\<close>

theorem removeDirective_removes_owned_overlords:
  "d_name d \<notin> d_name ` set (directives (removeDirective d s))
   \<and> (\<forall>ov\<in>set (d_overlords d).
         o_ref ov \<notin> o_ref ` set (overlords (removeDirective d s))
         \<and> (\<forall>os. overlordsByColony (removeDirective d s) (o_colony ov) = Some os
                \<longrightarrow> o_ref ov \<notin> o_ref ` set os)
         \<and> (colony_keyed s \<longrightarrow>
               (\<forall>c os. overlordsByColony (removeDirective d s) c = Some os \<longrightarrow> ov \<notin> set os)))"
proof (intro conjI ballI allI impI)
  show "d_name d \<notin> d_name ` set (directives (removeDirective d s))"
    by (auto simp: removeDirective_def fold_removeOverlord_directives)
next
  fix ov assume "ov \<in> set (d_overlords d)"
  then have "o_ref ov \<in> o_ref ` set (d_overlords d)" by simp
  then show "o_ref ov \<notin> o_ref ` set (overlords (removeDirective d s))"
    by (auto simp: removeDirective_def fold_removeOverlord_overlords)
next
  fix ov os
  assume m: "ov \<in> set (d_overlords d)"
    and l: "overlordsByColony (removeDirective d s) (o_colony ov) = Some os"
  from l obtain os0 where
    "os = filter (\<lambda>x. o_ref x \<notin> o_ref ` {v \<in> set (d_overlords d). o_colony v = o_colony ov}) os0"
    by (auto simp: removeDirective_def fold_removeOverlord_byColony)
  moreover from m have "o_ref ov \<in> o_ref ` {v \<in> set (d_overlords d). o_colony v = o_colony ov}"
    by blast
  ultimately show "o_ref ov \<notin> o_ref ` set os" by force
next
  fix ov c os
  assume m: "ov \<in> set (d_overlords d)" and k: "colony_keyed s"
    and l: "overlordsByColony (removeDirective d s) c = Some os"
  show "ov \<notin> set os"
  proof
    assume i: "ov \<in> set os"
    have "colony_keyed (removeDirective d s)" using k by (rule colony_keyed_removeDirective)
    with l i have c: "o_colony ov = c" by (auto simp: colony_keyed_def)
    from l obtain os0 where
      "os = filter (\<lambda>x. o_ref x \<notin> o_ref ` {v \<in> set (d_overlords d). o_colony v = c}) os0"
      by (auto simp: removeDirective_def fold_removeOverlord_byColony)
    moreover from m c have "o_ref ov \<in> o_ref ` {v \<in> set (d_overlords d). o_colony v = c}"
      by blast
    ultimately show False using i by force
  qed
qed


subsection \<open>Sorting\<close>

text \<open>
  What \<open>init\<close> does to the registries when it runs through: the lists are sorted when the
  flag is clear, and only then; neither registration nor removal clears the flag
  (\<open>registerOverlord_fields\<close>, \<open>removeOverlord_fields\<close>).
\<close>

lemma init_sorts_when_flag_clear:
  assumes "\<forall>d\<in>set (directives s). out_dInit U d = None"
    and "\<forall>ov\<in>set (overlords s). out_oPreInit U ov = None \<and> out_oInit U ov \<noteq> Some NonObject"
    and "\<not> sorted_flag s"
  shows "\<exists>s'. init True (passiveTasks U) now s = Some (None, s')
     \<and> overlords s' = sort_key o_priority (overlords s)
     \<and> overlordsByColony s' = (\<lambda>c. map_option (sort_key o_priority) (overlordsByColony s c))
     \<and> sorted_flag s'"
proof -
  from init_passive_ok [OF assms(1,2), of now]
  obtain s' where "init True (passiveTasks U) now s = Some (None, s')"
    and "overlords s' = overlords (sort_overlords s)"
    and "overlordsByColony s' = overlordsByColony (sort_overlords s)"
    and "sorted_flag s' = sorted_flag (sort_overlords s)"
    by blast
  with assms(3) show ?thesis by (simp add: sort_overlords_def)
qed

lemma init_keeps_order_when_flag_set:
  assumes "\<forall>d\<in>set (directives s). out_dInit U d = None"
    and "\<forall>ov\<in>set (overlords s). out_oPreInit U ov = None \<and> out_oInit U ov \<noteq> Some NonObject"
    and "sorted_flag s"
  shows "\<exists>s'. init True (passiveTasks U) now s = Some (None, s')
     \<and> overlords s' = overlords s \<and> overlordsByColony s' = overlordsByColony s"
proof -
  from init_passive_ok [OF assms(1,2), of now]
  obtain s' where "init True (passiveTasks U) now s = Some (None, s')"
    and "overlords s' = overlords (sort_overlords s)"
    and "overlordsByColony s' = overlordsByColony (sort_overlords s)"
    by blast
  with assms(3) show ?thesis by (simp add: sort_overlords_def)
qed

lemma sort_overlords_stable:
  "sorted (map o_priority (sort_key o_priority os))"
  "filter (\<lambda>x. o_priority x = k) (sort_key o_priority os) = filter (\<lambda>x. o_priority x = k) os"
  by (simp_all add: sort_key_stable)

subsection \<open>The scheduler on concrete inputs\<close>

lemmas overseer_eval = init_def run_def registerOverlord_def registerDirective_def new_Overseer_def
  sort_overlords_def isOverlordSuspended_def try_cb_def logCall_def Let_def passiveTasks_def
  init_directives.simps run_directives.simps init_overlords.simps run_overlords.simps

text \<open>
  C1. The claim: after any registration, the next \<open>init()\<close> leaves the global list and each
  colony's list sorted by priority. The code at a registration that follows an \<open>init()\<close>:
  Overlord A (priority 10) is registered, \<open>init()\<close> runs, Overlord B (priority 5) is
  registered, \<open>init()\<close> runs again. Both calls return. \<open>registerOverlord\<close> does not clear
  the flag \<open>sorted\<close>, so the second \<open>init()\<close> does not sort, and both lists stay in the
  order A, B.
\<close>

theorem late_registration_stays_unsorted:
  "init True quiet 1 (registerOverlord ovA overseer0) \<noteq> None
   \<and> init True quiet 2
        (registerOverlord ovB (snd (the (init True quiet 1 (registerOverlord ovA overseer0))))) \<noteq> None
   \<and> overlords (snd (the (init True quiet 2
        (registerOverlord ovB (snd (the (init True quiet 1 (registerOverlord ovA overseer0))))))))
       = [ovA, ovB]
   \<and> overlordsByColony (snd (the (init True quiet 2
        (registerOverlord ovB (snd (the (init True quiet 1 (registerOverlord ovA overseer0))))))))
        ''W1N1'' = Some [ovA, ovB]
   \<and> \<not> sorted (map o_priority (overlords (snd (the (init True quiet 2
        (registerOverlord ovB (snd (the (init True quiet 1 (registerOverlord ovA overseer0))))))))))"
  by (simp add: overseer_eval)

text \<open>
  C2, the claim as stated fails for a Directive: its \<open>init\<close> throws an error object, which
  leaves \<open>Overseer.init\<close>; nothing is appended to the exception list and no Overlord is
  invoked. The same holds of \<open>run\<close>. And what is stored for an Overlord does not tell the
  Overlord: the same error thrown by A and by B leaves the same list of exceptions.
\<close>

theorem directive_failure_not_isolated:
  "init True (passiveTasks (silent\<lparr>out_dInit := [dirX \<mapsto> ErrorObject boom]\<rparr>)) 1 overseerAB
     = Some (Some (Propagated (ErrorObject boom)),
             overseerAB\<lparr>calls := [DirectiveInit ''extract_W1N1'']\<rparr>)
   \<and> exceptions (overseerAB\<lparr>calls := [DirectiveInit ''extract_W1N1'']\<rparr>) = []
   \<and> run True (passiveTasks (silent\<lparr>out_dRun := [dirX \<mapsto> ErrorObject boom]\<rparr>)) 1 overseerAB
     = Some (Some (Propagated (ErrorObject boom)),
             overseerAB\<lparr>calls := [DirectiveRun ''extract_W1N1'']\<rparr>)
   \<and> exceptions (overseerAB\<lparr>calls := [DirectiveRun ''extract_W1N1'']\<rparr>) = []
   \<and> exceptions (snd (the (run True (passiveTasks (silent\<lparr>out_oRun := [ovA \<mapsto> ErrorObject boom]\<rparr>))
                                1 overseerAB)))
       = exceptions (snd (the (run True
                                (passiveTasks (silent\<lparr>out_oRun := [ovB \<mapsto> ErrorObject boom]\<rparr>))
                                1 overseerAB)))
   \<and> length (exceptions (snd (the (run True
                                (passiveTasks (silent\<lparr>out_oRun := [ovB \<mapsto> ErrorObject boom]\<rparr>))
                                1 overseerAB)))) = 1"
  by (simp add: overseer_eval)

text \<open>
  C2 at concrete inputs. Overlord B throws in \<open>init\<close>: A is still initialised, and the
  exception is stored under its new name. Overlord A throws in \<open>run\<close>: B has run before it
  and the exception is stored. A Directive throws in \<open>init\<close> with the setting off: the
  thrown value leaves \<open>init\<close>.
\<close>

theorem overlord_failures_isolated_witness:
  "init True (passiveTasks (silent\<lparr>out_oInit := [ovB \<mapsto> ErrorObject boom]\<rparr>)) 1 overseerAB \<noteq> None
   \<and> fst (the (init True (passiveTasks (silent\<lparr>out_oInit := [ovB \<mapsto> ErrorObject boom]\<rparr>)) 1
                   overseerAB)) = None
   \<and> exceptions (snd (the (init True (passiveTasks (silent\<lparr>out_oInit := [ovB \<mapsto> ErrorObject boom]\<rparr>))
                                1 overseerAB)))
       = [\<lparr>e_name = ''Caught unhandled exception at () => overlord.init(): '' @ [CHR 0x0A]
                     @ ''TypeError'' @ [CHR 0x0A] @ ''at init'',
           e_stack = ''at init''\<rparr>]
   \<and> calls (snd (the (init True (passiveTasks (silent\<lparr>out_oInit := [ovB \<mapsto> ErrorObject boom]\<rparr>))
                           1 overseerAB)))
       = [DirectiveInit ''extract_W1N1'', OverlordPreInit ''B'', OverlordInit ''B'',
          OverlordPreInit ''A'', OverlordInit ''A'']
   \<and> fst (the (run True (passiveTasks (silent\<lparr>out_oRun := [ovA \<mapsto> ErrorObject boom]\<rparr>)) 1
                   overseerAB)) = None
   \<and> calls (snd (the (run True (passiveTasks (silent\<lparr>out_oRun := [ovA \<mapsto> ErrorObject boom]\<rparr>))
                           1 overseerAB)))
       = [DirectiveRun ''extract_W1N1'', OverlordRun ''A'', OverlordRun ''B'']
   \<and> init False (passiveTasks (silent\<lparr>out_dInit := [dirX \<mapsto> ErrorObject boom]\<rparr>)) 1 overseerAB
       = Some (Some (Propagated (ErrorObject boom)),
               overseerAB\<lparr>calls := [DirectiveInit ''extract_W1N1'']\<rparr>)
   \<and> run False (passiveTasks (silent\<lparr>out_dRun := [dirX \<mapsto> ErrorObject boom]\<rparr>)) 1 overseerAB
       = Some (Some (Propagated (ErrorObject boom)),
               overseerAB\<lparr>calls := [DirectiveRun ''extract_W1N1'']\<rparr>)"
proof -
  let ?U1 = "silent\<lparr>out_oInit := [ovB \<mapsto> ErrorObject boom]\<rparr>"
  let ?U2 = "silent\<lparr>out_oRun := [ovA \<mapsto> ErrorObject boom]\<rparr>"
  let ?U3 = "silent\<lparr>out_dInit := [dirX \<mapsto> ErrorObject boom]\<rparr>"
  let ?U4 = "silent\<lparr>out_dRun := [dirX \<mapsto> ErrorObject boom]\<rparr>"
  have h1: "(\<forall>d\<in>set (directives overseerAB). out_dInit ?U1 d = None)
      \<and> (\<forall>ov\<in>set (overlords overseerAB).
            out_oPreInit ?U1 ov = None \<and> out_oInit ?U1 ov \<noteq> Some NonObject)"
    by (simp add: overseer_eval)
  have h2: "(\<forall>d\<in>set (directives overseerAB). out_dRun ?U2 d = None)
      \<and> (\<forall>ov\<in>set (overlords overseerAB). out_oRun ?U2 ov \<noteq> Some NonObject)"
    by (simp add: overseer_eval)
  have h3: "firstThrown (out_dInit ?U3) (directives overseerAB) = Some (ErrorObject boom)"
    by (simp add: overseer_eval)
  have h4: "firstThrown (out_dRun ?U4) (directives overseerAB) = Some (ErrorObject boom)"
    by (simp add: overseer_eval)
  from overlord_failures_isolated [where s = overseerAB and U = ?U1 and now = 1] h1
  obtain s1 where r1: "init True (passiveTasks ?U1) 1 overseerAB = Some (None, s1)" by blast
  from overlord_failures_isolated [where s = overseerAB and U = ?U2 and now = 1] h2
  obtain s2 where r2: "run True (passiveTasks ?U2) 1 overseerAB = Some (None, s2)" by blast
  from overlord_failures_isolated [where s = overseerAB and U = ?U3 and now = 1 and tc = False] h3
  have r3: "init False (passiveTasks ?U3) 1 overseerAB
       = Some (Some (Propagated (ErrorObject boom)),
               overseerAB\<lparr>calls := [DirectiveInit ''extract_W1N1'']\<rparr>)"
    by (simp add: overseer_eval)
  from overlord_failures_isolated [where s = overseerAB and U = ?U4 and now = 1 and tc = False] h4
  have r4: "run False (passiveTasks ?U4) 1 overseerAB
       = Some (Some (Propagated (ErrorObject boom)),
               overseerAB\<lparr>calls := [DirectiveRun ''extract_W1N1'']\<rparr>)"
    by (simp add: overseer_eval)
  have e1: "exceptions (snd (the (init True (passiveTasks ?U1) 1 overseerAB)))
       = [\<lparr>e_name = ''Caught unhandled exception at () => overlord.init(): '' @ [CHR 0x0A]
                     @ ''TypeError'' @ [CHR 0x0A] @ ''at init'',
           e_stack = ''at init''\<rparr>]"
    by (simp add: overseer_eval annotate_def cb_init_def newline_def)
  have c1: "calls (snd (the (init True (passiveTasks ?U1) 1 overseerAB)))
       = [DirectiveInit ''extract_W1N1'', OverlordPreInit ''B'', OverlordInit ''B'',
          OverlordPreInit ''A'', OverlordInit ''A'']"
    by (simp add: overseer_eval)
  have c2: "calls (snd (the (run True (passiveTasks ?U2) 1 overseerAB)))
       = [DirectiveRun ''extract_W1N1'', OverlordRun ''A'', OverlordRun ''B'']"
    by (simp add: overseer_eval)
  show ?thesis
    using r1 r2 r3 r4 e1 c1 c2 by simp
qed

text \<open>
  A Directive whose \<open>run\<close> removes it, as the extraction directive does below level 6: the
  Directive registered after it moves under the index of the loop and is passed over in that
  tick, and the Overlord the removed Directive owns is not run.
\<close>

lemma self_removal_skips_next:
  "directives (registerDirective dirY overseerAB) = [dirX, dirY]
   \<and> fst (the (run True selfRemoving 1 (registerDirective dirY overseerAB))) = None
   \<and> calls (snd (the (run True selfRemoving 1 (registerDirective dirY overseerAB))))
       = [DirectiveRun ''extract_W1N1'', OverlordRun ''B'']
   \<and> directives (snd (the (run True selfRemoving 1 (registerDirective dirY overseerAB)))) = [dirY]"
  by (simp add: overseer_eval removeDirective_def removeOverlord_def)

text \<open>C8 at a concrete input: removing the directive that owns A leaves only B.\<close>

theorem removeDirective_witness:
  "ovA \<in> set (d_overlords dirX)
   \<and> colony_keyed overseerAB
   \<and> overlordsByColony (removeDirective dirX overseerAB) ''W1N1'' = Some [ovB]
   \<and> ovA \<notin> set [ovB]
   \<and> ''A'' \<notin> o_ref ` set (overlords (removeDirective dirX overseerAB))
   \<and> ''extract_W1N1'' \<notin> d_name ` set (directives (removeDirective dirX overseerAB))"
proof -
  have k: "colony_keyed overseerAB"
    by (auto simp: colony_keyed_def overseer_eval split: if_splits)
  have l: "overlordsByColony (removeDirective dirX overseerAB) ''W1N1'' = Some [ovB]"
    by (simp add: removeDirective_def removeOverlord_def overseer_eval)
  show ?thesis
    using k l removeDirective_removes_owned_overlords [of dirX overseerAB]
    by simp
qed

text \<open>
  The suspension window at a concrete input: \<open>suspendFor(O, 5)\<close> at tick 100 is in force at tick 104 and over
  at tick 105; a record with resume tick 105 goes at the read of tick 105.
\<close>

theorem suspension_window_witness:
  "isOverlordSuspended 104 ovO
     (suspendOverlordFor 100 ovO 5 overseer0)
    = (True, suspendOverlordFor 100 ovO 5 overseer0)
   \<and> \<not> fst (isOverlordSuspended 105 ovO
     (suspendOverlordFor 100 ovO 5 overseer0))
   \<and> fst (reads [100, 104, 105, 106] ovO
       (suspendOverlordUntil ovO 105 overseer0))
      = [True, True, False, False]
   \<and> suspendUntil (snd (reads [100, 104, 105, 106] ovO
       (suspendOverlordUntil ovO 105 overseer0))) ''O'' = None"
  using suspension_window_and_single_deletion
    [of 100 104 5 ovO overseer0]
    suspension_window_and_single_deletion
    [of 100 105 5 ovO overseer0]
    suspension_window_and_single_deletion
    [of 0 0 0 ovO
        "suspendOverlordUntil ovO 105 overseer0"
        105 "[100, 104]" 105 "[106]"]
  by (simp add: suspendOverlordUntil_def new_Overseer_def)

text \<open>
  C4. The claim: every suspension record with resume tick \<open>T\<close> is deleted by the first read
  at a tick \<open>\<ge> T\<close>. The code at a record with resume tick 0, as \<open>suspendOverlordUntil(o, 0)\<close>
  writes it: the read at tick 5 reports the Overlord as not suspended, as it should, and
  leaves the record where it is, because the test \<open>if (this.memory.suspendUntil[ref])\<close> takes
  the stored 0 for no record.
\<close>

theorem zero_record_never_deleted:
  "isOverlordSuspended 5 ovO
     (suspendOverlordUntil ovO 0 overseer0)
   = (False, suspendOverlordUntil ovO 0 overseer0)
   \<and> suspendUntil (snd (isOverlordSuspended 5 ovO
     (suspendOverlordUntil ovO 0 overseer0))) ''O'' = Some 0"
  by (simp add: isOverlordSuspended_def suspendOverlordUntil_def new_Overseer_def)


section \<open>Properties of the evaluators\<close>

subsection \<open>Safe mode\<close>

lemma createIfNotPresent_events:
  "\<exists>es. events (createIfNotPresent k p sc w) = events w @ es
        \<and> (\<forall>e\<in>set es. case e of ActivateSafeMode r \<Rightarrow> False | _ \<Rightarrow> True)"
  by (auto simp: createIfNotPresent_def)

lemma attemptSafeMode_cases:
  "attemptSafeMode E c w = (b, w') \<Longrightarrow>
     \<exists>r es. events w' = events w @ ActivateSafeMode r # es
       \<and> r = activateSafeMode E (safeModeCalls (events w))
       \<and> (\<forall>e\<in>set es. case e of ActivateSafeMode r \<Rightarrow> False | _ \<Rightarrow> True)
       \<and> (b \<longrightarrow> es = [] \<and> (r = OK \<or> safeModeActive c))
       \<and> (\<not> b \<longrightarrow> r \<noteq> OK \<and> \<not> safeModeActive c)"
  using createIfNotPresent_events
    [of TerminalEvacuateState _ ScopeRoom "w\<lparr>events := events w @ [ActivateSafeMode (activateSafeMode E (safeModeCalls (events w)))]\<rparr>"]
  by (fastforce simp: attemptSafeMode_def Let_def split: if_splits option.splits)

lemma failedOnly_append: "failedOnly c (xs @ ys) = (failedOnly c xs \<and> failedOnly c ys)"
  by (auto simp: failedOnly_def)

lemma failedOnly_Cons:
  "failedOnly c (e # es) =
     ((case e of ActivateSafeMode r \<Rightarrow> r \<noteq> OK \<and> \<not> safeModeActive c | _ \<Rightarrow> True) \<and> failedOnly c es)"
  by (simp add: failedOnly_def)

lemma failedOnly_quiet:
  "\<forall>e\<in>set es. (case e of ActivateSafeMode r \<Rightarrow> False | _ \<Rightarrow> True) \<Longrightarrow> failedOnly c es"
  by (auto simp: failedOnly_def split: Event.splits)

lemma scanStructures_events:
  "scanStructures E c sts w = (b, w') \<Longrightarrow>
     \<exists>es. events w' = events w @ es
       \<and> (if b then \<exists>es0 r. es = es0 @ [ActivateSafeMode r] \<and> failedOnly c es0
                     \<and> (r = OK \<or> safeModeActive c)
          else failedOnly c es)"
proof (induction sts arbitrary: w)
  case Nil
  then show ?case by (simp add: failedOnly_def)
next
  case (Cons st sts)
  show ?case
  proof (cases "hits st < hitsMax st \<and> findInRange E (st_pos st) (room_dangerousHostiles c) 2 \<noteq> []")
    case False
    with Cons.prems have "scanStructures E c sts w = (b, w')" by auto
    then show ?thesis by (rule Cons.IH)
  next
    case True
    obtain b1 w1 where a: "attemptSafeMode E c w = (b1, w1)" by (cases "attemptSafeMode E c w")
    from attemptSafeMode_cases [OF a] obtain r es1 where
      e1: "events w1 = events w @ ActivateSafeMode r # es1"
      and q: "\<forall>e\<in>set es1. case e of ActivateSafeMode r \<Rightarrow> False | _ \<Rightarrow> True"
      and t: "b1 \<longrightarrow> es1 = [] \<and> (r = OK \<or> safeModeActive c)"
      and f: "\<not> b1 \<longrightarrow> r \<noteq> OK \<and> \<not> safeModeActive c"
      by blast
    show ?thesis
    proof (cases b1)
      case True
      with Cons.prems \<open>hits st < hitsMax st \<and> _\<close> a have "b" "w' = w1" by auto
      with e1 t True show ?thesis by (auto simp: failedOnly_def)
    next
      case False
      with Cons.prems \<open>hits st < hitsMax st \<and> _\<close> a have "scanStructures E c sts w1 = (b, w')" by auto
      from Cons.IH [OF this] obtain es where
        e2: "events w' = events w1 @ es"
        and i: "if b then \<exists>es0 r. es = es0 @ [ActivateSafeMode r] \<and> failedOnly c es0
                               \<and> (r = OK \<or> safeModeActive c)
                else failedOnly c es"
        by blast
      have h: "failedOnly c (ActivateSafeMode r # es1)"
        using f False failedOnly_quiet [OF q, of c] by (simp add: failedOnly_def)
      show ?thesis
      proof (cases b)
        case True
        with i obtain es0 r' where "es = es0 @ [ActivateSafeMode r']" "failedOnly c es0"
          "r' = OK \<or> safeModeActive c" by auto
        then have "(ActivateSafeMode r # es1) @ es = ((ActivateSafeMode r # es1) @ es0) @ [ActivateSafeMode r']"
          "failedOnly c ((ActivateSafeMode r # es1) @ es0)"
          using h by (simp_all only: failedOnly_append append_assoc simp_thms)
        moreover have "events w' = events w @ ((ActivateSafeMode r # es1) @ es)"
          using e1 e2 by simp
        ultimately show ?thesis
          using True \<open>r' = OK \<or> safeModeActive c\<close> by (metis (full_types))
      next
        case False
        with i have "failedOnly c ((ActivateSafeMode r # es1) @ es)"
          using h by (simp only: failedOnly_append if_False simp_thms)
        moreover have "events w' = events w @ ((ActivateSafeMode r # es1) @ es)"
          using e1 e2 by simp
        ultimately show ?thesis
          using False by (metis (full_types))
      qed
    qed
  qed
qed

lemma handleSafeMode_events:
  "\<exists>es. events (handleSafeMode E c w) = events w @ es
     \<and> (failedOnly c es
        \<or> (\<exists>es0 r. es = es0 @ [ActivateSafeMode r] \<and> failedOnly c es0 \<and> (r = OK \<or> safeModeActive c)))"
proof -
  obtain b w1 where s: "scanStructures E c (criticalStructures c) w = (b, w1)"
    by (cases "scanStructures E c (criticalStructures c) w")
  from scanStructures_events [OF s] obtain es where
    e: "events w1 = events w @ es"
    and i: "if b then \<exists>es0 r. es = es0 @ [ActivateSafeMode r] \<and> failedOnly c es0
                           \<and> (r = OK \<or> safeModeActive c)
            else failedOnly c es"
    by blast
  obtain b2 w2 where a: "attemptSafeMode E c w1 = (b2, w2)" by (cases "attemptSafeMode E c w1")
  from attemptSafeMode_cases [OF a] obtain r es1 where
    e1: "events w2 = events w1 @ ActivateSafeMode r # es1"
    and q: "\<forall>e\<in>set es1. case e of ActivateSafeMode r \<Rightarrow> False | _ \<Rightarrow> True"
    and t: "b2 \<longrightarrow> es1 = [] \<and> (r = OK \<or> safeModeActive c)"
    and f: "\<not> b2 \<longrightarrow> r \<noteq> OK \<and> \<not> safeModeActive c"
    by blast
  have none: "failedOnly c []" by (simp add: failedOnly_def)
  have "handleSafeMode E c w = w \<or> handleSafeMode E c w = w1
          \<or> (\<not> b \<and> handleSafeMode E c w = w2)"
    unfolding handleSafeMode_def s using a
    by (cases b) (simp_all split: list.splits)
  then consider (skip) "handleSafeMode E c w = w"
    | (one) "handleSafeMode E c w = w1"
    | (two) "\<not> b" "handleSafeMode E c w = w2"
    by blast
  then show ?thesis
  proof cases
    case skip
    then show ?thesis using none by auto
  next
    case one
    then show ?thesis using e i by (auto split: if_splits)
  next
    case two
    with i have fo: "failedOnly c es" by simp
    show ?thesis
    proof (cases b2)
      case True
      with t have "es1 = []" "r = OK \<or> safeModeActive c" by auto
      with two e e1 fo show ?thesis by auto
    next
      case False
      with f have "failedOnly c (ActivateSafeMode r # es1)"
        using failedOnly_quiet [OF q, of c] by (simp add: failedOnly_def)
      with two e e1 fo have "events (handleSafeMode E c w) = events w @ (es @ ActivateSafeMode r # es1)"
        "failedOnly c (es @ ActivateSafeMode r # es1)"
        by (auto simp: failedOnly_append)
      then show ?thesis by blast
    qed
  qed
qed

lemma handleSafeMode_success_last:
  "\<exists>es. events (handleSafeMode E c w) = events w @ es
     \<and> (\<forall>pre r post. es = pre @ ActivateSafeMode r # post \<and> (r = OK \<or> safeModeActive c)
            \<longrightarrow> post = [])"
proof -
  from handleSafeMode_events [of E c w] obtain es where
    e: "events (handleSafeMode E c w) = events w @ es"
    and d: "failedOnly c es
        \<or> (\<exists>es0 r. es = es0 @ [ActivateSafeMode r] \<and> failedOnly c es0 \<and> (r = OK \<or> safeModeActive c))"
    by blast
  have "post = []" if p: "es = pre @ ActivateSafeMode r # post" and ok: "r = OK \<or> safeModeActive c"
    for pre r post
  proof (rule ccontr)
    assume ne: "post \<noteq> []"
    from d show False
    proof
      assume "failedOnly c es"
      with p ok show False by (auto simp: failedOnly_def)
    next
      assume "\<exists>es0 r. es = es0 @ [ActivateSafeMode r] \<and> failedOnly c es0 \<and> (r = OK \<or> safeModeActive c)"
      then obtain es0 r' where q: "es = es0 @ [ActivateSafeMode r']" and fo: "failedOnly c es0" by blast
      from ne obtain post' l where pl: "post = post' @ [l]" by (metis rev_exhaust)
      with p q have "es0 = pre @ ActivateSafeMode r # post'" by simp
      with fo ok show False by (auto simp: failedOnly_def)
    qed
  qed
  with e show ?thesis by blast
qed

lemma safeModeCalls_append [simp]:
  "safeModeCalls (xs @ ys) = safeModeCalls xs + safeModeCalls ys"
  by (simp add: safeModeCalls_def)

lemma attemptSafeMode_fail:
  "activateSafeMode E (safeModeCalls (events w)) \<noteq> OK \<Longrightarrow> \<not> safeModeActive c \<Longrightarrow>
     \<not> fst (attemptSafeMode E c w)
     \<and> safeModeCalls (events (snd (attemptSafeMode E c w))) = Suc (safeModeCalls (events w))"
  by (auto simp: attemptSafeMode_def Let_def createIfNotPresent_def safeModeCalls_def
           split: option.splits)

lemma scanStructures_Cons:
  "scanStructures E c (st # sts) w =
     (if structureTrigger E c st then
        (case attemptSafeMode E c w of
           (True, w1) \<Rightarrow> (True, w1)
         | (False, w1) \<Rightarrow> scanStructures E c sts w1)
      else scanStructures E c sts w)"
  by (simp add: structureTrigger_def)

lemma scanStructures_fail:
  "\<forall>k. activateSafeMode E k \<noteq> OK \<Longrightarrow> \<not> safeModeActive c \<Longrightarrow>
     \<not> fst (scanStructures E c sts w)
     \<and> safeModeCalls (events (snd (scanStructures E c sts w)))
         = safeModeCalls (events w) + length (filter (structureTrigger E c) sts)"
proof (induction sts arbitrary: w)
  case Nil
  then show ?case by simp
next
  case (Cons st sts)
  show ?case
  proof (cases "structureTrigger E c st")
    case False
    then show ?thesis
      using Cons.IH [OF Cons.prems, of w] by (simp add: scanStructures_Cons del: scanStructures.simps)
  next
    case True
    obtain b w1 where a: "attemptSafeMode E c w = (b, w1)" by (cases "attemptSafeMode E c w")
    from Cons.prems have "activateSafeMode E (safeModeCalls (events w)) \<noteq> OK" by blast
    from attemptSafeMode_fail [OF this Cons.prems(2)] a
    have b: "\<not> b" and n: "safeModeCalls (events w1) = Suc (safeModeCalls (events w))" by simp_all
    have "scanStructures E c (st # sts) w = scanStructures E c sts w1"
      using True a b by (simp add: scanStructures_Cons del: scanStructures.simps)
    then show ?thesis
      using Cons.IH [OF Cons.prems, of w1] True n by (simp del: scanStructures.simps)
  qed
qed

lemma handleSafeMode_fail:
  assumes f: "\<forall>k. activateSafeMode E k \<noteq> OK" and n: "\<not> safeModeActive c"
    and g: "\<not> (c_stage c = Larva \<and> onPublicServer E)"
  shows "safeModeCalls (events (handleSafeMode E c w))
         = safeModeCalls (events w) + length (filter (structureTrigger E c) (criticalStructures c))
           + (if reachTrigger E c then 1 else 0)"
proof -
  obtain b w1 where s: "scanStructures E c (criticalStructures c) w = (b, w1)"
    by (cases "scanStructures E c (criticalStructures c) w")
  from scanStructures_fail [OF f n, of "criticalStructures c" w] s
  have b: "\<not> b"
    and c1: "safeModeCalls (events w1)
             = safeModeCalls (events w) + length (filter (structureTrigger E c) (criticalStructures c))"
    by simp_all
  from f have "activateSafeMode E (safeModeCalls (events w1)) \<noteq> OK" by blast
  from attemptSafeMode_fail [OF this n]
  have c2: "safeModeCalls (events (snd (attemptSafeMode E c w1))) = Suc (safeModeCalls (events w1))"
    by simp
  have "handleSafeMode E c w = (if reachTrigger E c then snd (attemptSafeMode E c w1) else w1)"
    using g s b by (auto simp: handleSafeMode_def reachTrigger_def split: list.splits)
  then show ?thesis using c1 c2 by simp
qed

text \<open>
  C5 (as amended). A call of \<open>activateSafeMode\<close> that returns \<open>OK\<close>, or that is made while
  safe mode is already active, is the last thing \<open>handleSafeMode\<close> does for the colony. A
  call that fails does not end the evaluation, whether or not an evacuation directive was
  placed after it: when every call fails, each critical structure whose trigger fires and
  the reachability trigger make one call each.
\<close>

theorem safe_mode_decision:
  "(\<exists>es. events (handleSafeMode E c w) = events w @ es
      \<and> (\<forall>pre r post. es = pre @ ActivateSafeMode r # post \<and> (r = OK \<or> safeModeActive c)
             \<longrightarrow> post = []))
   \<and> ((\<forall>k. activateSafeMode E k \<noteq> OK) \<and> \<not> safeModeActive c
        \<and> \<not> (c_stage c = Larva \<and> onPublicServer E) \<longrightarrow>
       safeModeCalls (events (handleSafeMode E c w))
         = safeModeCalls (events w) + length (filter (structureTrigger E c) (criticalStructures c))
           + (if reachTrigger E c then 1 else 0))"
  using handleSafeMode_success_last [of E c w] handleSafeMode_fail [of E c w] by blast

subsection \<open>Invasion defence\<close>

lemma isPresent_room:
  "isPresent InvasionDefense p ScopeRoom fs = (invasionFlags (pos_roomName p) fs \<noteq> [])"
  by (auto simp: isPresent_def invasionFlags_def filter_empty_conv)

lemma handleColonyInvasions_eq:
  "handleColonyInvasions E c w =
     (if invasionDefense_requiredRCL E \<le> c_level c \<and> needsDefence E c
         \<and> invasionFlags (pos_roomName (controller_pos c)) (flags w) = []
      then w\<lparr>flags := flags w @ [\<lparr>f_kind = InvasionDefense, f_pos = controller_pos c\<rparr>],
             events := events w @ [CreateFlag InvasionDefense (controller_pos c)]\<rparr>
      else w)"
  by (simp add: handleColonyInvasions_def needsDefence_def createIfNotPresent_def isPresent_room Let_def)

lemma handleColonyInvasions_count:
  "pos_roomName (controller_pos c) = r \<Longrightarrow>
   length (invasionFlags r (flags (handleColonyInvasions E c w)))
     = (if invasionDefense_requiredRCL E \<le> c_level c \<and> needsDefence E c
           \<and> invasionFlags r (flags w) = []
        then 1 else length (invasionFlags r (flags w)))"
  by (auto simp: handleColonyInvasions_eq invasionFlags_def)

lemma later_ticks_count:
  "\<forall>(E, c)\<in>set ticks. pos_roomName (controller_pos c) = r \<Longrightarrow>
   length (invasionFlags r (flags w)) \<le> 1 \<Longrightarrow>
   length (invasionFlags r (flags (fold (\<lambda>(E, c). handleColonyInvasions E c) ticks w))) \<le> 1"
proof (induction ticks arbitrary: w)
  case Nil
  then show ?case by simp
next
  case (Cons t ticks)
  obtain E c where t: "t = (E, c)" by (cases t)
  with Cons.prems have r: "pos_roomName (controller_pos c) = r" by simp
  have "length (invasionFlags r (flags (handleColonyInvasions E c w))) \<le> 1"
    using Cons.prems(2) by (simp add: handleColonyInvasions_count [OF r])
  with Cons.IH [of "handleColonyInvasions E c w"] Cons.prems(1) t show ?case by simp
qed

text \<open>
  C7. For a colony at or above the required level, \<open>handleColonyInvasions\<close> places an
  invasion-defence directive at the controller position exactly when none is present in the
  room and both conditions hold: the hostiles, a boosted one counted twice, weigh at least 3
  or a dangerous player hostile is there, and the room has been unsafe for more than 20
  ticks. Below the required level nothing is placed. Over any later ticks the room never
  holds more than one such directive.
\<close>

theorem invasion_defense_placement:
  "(invasionDefense_requiredRCL E \<le> c_level c \<longrightarrow>
      (handleColonyInvasions E c w \<noteq> w
         \<longleftrightarrow> needsDefence E c \<and> invasionFlags (pos_roomName (controller_pos c)) (flags w) = [])
      \<and> (needsDefence E c \<and> invasionFlags (pos_roomName (controller_pos c)) (flags w) = [] \<longrightarrow>
           handleColonyInvasions E c w
             = w\<lparr>flags := flags w @ [\<lparr>f_kind = InvasionDefense, f_pos = controller_pos c\<rparr>],
                 events := events w @ [CreateFlag InvasionDefense (controller_pos c)]\<rparr>))
   \<and> (c_level c < invasionDefense_requiredRCL E \<longrightarrow> handleColonyInvasions E c w = w)
   \<and> ((\<forall>(E', c')\<in>set ticks. controller_pos c' = controller_pos c)
        \<and> length (invasionFlags (pos_roomName (controller_pos c)) (flags w)) \<le> 1 \<longrightarrow>
       length (invasionFlags (pos_roomName (controller_pos c))
                 (flags (fold (\<lambda>(E', c'). handleColonyInvasions E' c') ticks
                           (handleColonyInvasions E c w)))) \<le> 1)"
proof (intro conjI impI)
  assume l: "invasionDefense_requiredRCL E \<le> c_level c"
  have ne: "w\<lparr>flags := flags w @ [f], events := es\<rparr> \<noteq> w" for f es
  proof
    assume "w\<lparr>flags := flags w @ [f], events := es\<rparr> = w"
    then have "flags (w\<lparr>flags := flags w @ [f], events := es\<rparr>) = flags w" by simp
    then show False by simp
  qed
  show "handleColonyInvasions E c w \<noteq> w
         \<longleftrightarrow> needsDefence E c \<and> invasionFlags (pos_roomName (controller_pos c)) (flags w) = []"
    using l ne by (simp add: handleColonyInvasions_eq)
  assume "needsDefence E c \<and> invasionFlags (pos_roomName (controller_pos c)) (flags w) = []"
  with l show "handleColonyInvasions E c w
             = w\<lparr>flags := flags w @ [\<lparr>f_kind = InvasionDefense, f_pos = controller_pos c\<rparr>],
                 events := events w @ [CreateFlag InvasionDefense (controller_pos c)]\<rparr>"
    by (simp add: handleColonyInvasions_eq)
next
  assume "c_level c < invasionDefense_requiredRCL E"
  then show "handleColonyInvasions E c w = w" by (simp add: handleColonyInvasions_eq)
next
  assume a: "(\<forall>(E', c')\<in>set ticks. controller_pos c' = controller_pos c)
        \<and> length (invasionFlags (pos_roomName (controller_pos c)) (flags w)) \<le> 1"
  then have t: "\<forall>(E', c')\<in>set ticks. pos_roomName (controller_pos c') = pos_roomName (controller_pos c)"
    by auto
  have "length (invasionFlags (pos_roomName (controller_pos c)) (flags (handleColonyInvasions E c w))) \<le> 1"
    using a by (simp add: handleColonyInvasions_count)
  with t show "length (invasionFlags (pos_roomName (controller_pos c))
                 (flags (fold (\<lambda>(E', c'). handleColonyInvasions E' c') ticks
                           (handleColonyInvasions E c w)))) \<le> 1"
    by (rule later_ticks_count)
qed


subsection \<open>The evaluators on concrete inputs\<close>

lemmas evaluator_eval = handleSafeMode_def attemptSafeMode_def criticalStructures_def
  safeModeCalls_def safeModeActive_def createIfNotPresent_def isPresent_def OK_def Let_def
  handleColonyInvasions_def structureTrigger_def reachTrigger_def invasionFlags_def needsDefence_def

text \<open>
  C5, the claim as stated fails: two damaged spawns under threat, activation fails, the
  evacuation directive is placed after the first failure, and the two remaining triggers
  are evaluated all the same.
\<close>

theorem evacuation_does_not_stop_evaluation:
  "events (handleSafeMode envFail colonyX world0)
     = [ActivateSafeMode (- 6), CreateFlag TerminalEvacuateState posTerminal,
        ActivateSafeMode (- 6), ActivateSafeMode (- 6)]
   \<and> flags (handleSafeMode envFail colonyX world0)
     = [\<lparr>f_kind = TerminalEvacuateState, f_pos = posTerminal\<rparr>]"
  by (simp add: evaluator_eval)

text \<open>C5 at concrete inputs: one where activation succeeds, one where it fails.\<close>

theorem safe_mode_decision_witness:
  "events (handleSafeMode envOK colonyX world0) = [ActivateSafeMode OK]
   \<and> (\<forall>k. activateSafeMode envFail k \<noteq> OK) \<and> \<not> safeModeActive colonyX
   \<and> \<not> (c_stage colonyX = Larva \<and> onPublicServer envFail)
   \<and> safeModeCalls (events (handleSafeMode envFail colonyX world0)) = 3"
proof -
  have e: "events (handleSafeMode envOK colonyX world0) = [ActivateSafeMode OK]"
    by (simp add: evaluator_eval)
  have h: "(\<forall>k. activateSafeMode envFail k \<noteq> OK) \<and> \<not> safeModeActive colonyX
      \<and> \<not> (c_stage colonyX = Larva \<and> onPublicServer envFail)"
    by (simp add: evaluator_eval)
  from safe_mode_decision [of envOK colonyX world0] e
  have "\<forall>pre r post. [ActivateSafeMode OK] = pre @ ActivateSafeMode r # post
          \<and> (r = OK \<or> safeModeActive colonyX) \<longrightarrow> post = []"
    by simp
  from safe_mode_decision [of envFail colonyX world0] h
  have "safeModeCalls (events (handleSafeMode envFail colonyX world0)) = 3"
    by (simp add: evaluator_eval)
  with e h show ?thesis by blast
qed

text \<open>
  C7 at concrete inputs: three ordinary hostiles in a room unsafe for 25 ticks, two ordinary
  hostiles, and a colony below the required level.
\<close>

theorem invasion_defense_placement_witness:
  "invasionDefense_requiredRCL envFail \<le> c_level colonyX
   \<and> needsDefence envFail colonyX
   \<and> invasionFlags (pos_roomName (controller_pos colonyX)) (flags world0) = []
   \<and> handleColonyInvasions envFail colonyX world0
       = \<lparr>flags = [\<lparr>f_kind = InvasionDefense, f_pos = posController\<rparr>],
          events = [CreateFlag InvasionDefense posController]\<rparr>
   \<and> \<not> needsDefence envFail (colonyX\<lparr>room_hostiles := [invader, invader]\<rparr>)
   \<and> handleColonyInvasions envFail (colonyX\<lparr>room_hostiles := [invader, invader]\<rparr>) world0 = world0
   \<and> c_level (colonyX\<lparr>c_level := 2\<rparr>) < invasionDefense_requiredRCL envFail
   \<and> handleColonyInvasions envFail (colonyX\<lparr>c_level := 2\<rparr>) world0 = world0
   \<and> length (invasionFlags ''W1N1''
        (flags (fold (\<lambda>(E', c'). handleColonyInvasions E' c') [(envFail, colonyX), (envFail, colonyX)]
                  (handleColonyInvasions envFail colonyX world0)))) \<le> 1"
proof -
  have a: "invasionDefense_requiredRCL envFail \<le> c_level colonyX
     \<and> needsDefence envFail colonyX
     \<and> invasionFlags (pos_roomName (controller_pos colonyX)) (flags world0) = []"
    by (simp add: evaluator_eval)
  have b: "\<not> needsDefence envFail (colonyX\<lparr>room_hostiles := [invader, invader]\<rparr>)"
    by (simp add: evaluator_eval)
  have c: "c_level (colonyX\<lparr>c_level := 2\<rparr>) < invasionDefense_requiredRCL envFail"
    by simp
  have d: "\<forall>(E', c')\<in>set [(envFail, colonyX), (envFail, colonyX)]. controller_pos c' = controller_pos colonyX"
    by simp
  show ?thesis
    using a b c
      invasion_defense_placement [of envFail colonyX world0 "[(envFail, colonyX), (envFail, colonyX)]"] d
      invasion_defense_placement [of envFail "colonyX\<lparr>room_hostiles := [invader, invader]\<rparr>" world0 "[]"]
      invasion_defense_placement [of envFail "colonyX\<lparr>c_level := 2\<rparr>" world0 "[]"]
    by (simp add: evaluator_eval)
qed


section \<open>Properties of the spawn group\<close>

subsection \<open>The shared cache\<close>

lemma recalculate_loop_Cons:
  "recalculate_loop G rn (r # rest) (cols, rts, dists) =
     (if accepted G rn r then
        recalculate_loop G rn rest
          (cols @ [r_name r], rts(r_name r := findRoute G (r_name r) rn),
           dists(r_name r \<mapsto> length (p_path (pathFrom G rn r))))
      else recalculate_loop G rn rest (cols, rts, dists))"
  by (auto simp: accepted_def pathFrom_def MAX_PATH_DISTANCE_def Let_def
           split: list.splits option.splits)

lemma loop_colonies:
  "fst (recalculate_loop G rn rs (cols, rts, dists)) = cols @ map r_name (filter (accepted G rn) rs)"
  by (induction rs arbitrary: cols rts dists)
     (simp_all add: recalculate_loop_Cons del: recalculate_loop.simps(2))

lemma loop_routes_dom:
  "dom rts \<subseteq> set cols \<Longrightarrow>
   dom (fst (snd (recalculate_loop G rn rs (cols, rts, dists))))
     \<subseteq> set (fst (recalculate_loop G rn rs (cols, rts, dists)))"
proof (induction rs arbitrary: cols rts dists)
  case Nil
  then show ?case by simp
next
  case (Cons r rs)
  show ?case
  proof (cases "accepted G rn r")
    case True
    let ?cols = "cols @ [r_name r]"
    let ?rts = "rts(r_name r := findRoute G (r_name r) rn)"
    let ?dists = "dists(r_name r \<mapsto> length (p_path (pathFrom G rn r)))"
    have "dom ?rts \<subseteq> set ?cols"
      using Cons.prems by (auto split: if_splits)
    then have "dom (fst (snd (recalculate_loop G rn rs (?cols, ?rts, ?dists))))
                 \<subseteq> set (fst (recalculate_loop G rn rs (?cols, ?rts, ?dists)))"
      by (rule Cons.IH)
    then show ?thesis
      unfolding recalculate_loop_Cons using True by (simp only: if_True)
  next
    case False
    have "dom (fst (snd (recalculate_loop G rn rs (cols, rts, dists))))
                 \<subseteq> set (fst (recalculate_loop G rn rs (cols, rts, dists)))"
      using Cons.prems by (rule Cons.IH)
    then show ?thesis
      unfolding recalculate_loop_Cons using False by (simp only: if_False)
  qed
qed

lemma loop_distances_dom:
  "dom dists \<subseteq> set cols \<Longrightarrow>
   dom (snd (snd (recalculate_loop G rn rs (cols, rts, dists))))
     \<subseteq> set (fst (recalculate_loop G rn rs (cols, rts, dists)))"
proof (induction rs arbitrary: cols rts dists)
  case Nil
  then show ?case by simp
next
  case (Cons r rs)
  show ?case
  proof (cases "accepted G rn r")
    case True
    let ?cols = "cols @ [r_name r]"
    let ?rts = "rts(r_name r := findRoute G (r_name r) rn)"
    let ?dists = "dists(r_name r \<mapsto> length (p_path (pathFrom G rn r)))"
    have "dom ?dists \<subseteq> set ?cols"
      using Cons.prems by auto
    then have "dom (snd (snd (recalculate_loop G rn rs (?cols, ?rts, ?dists))))
                 \<subseteq> set (fst (recalculate_loop G rn rs (?cols, ?rts, ?dists)))"
      by (rule Cons.IH)
    then show ?thesis
      unfolding recalculate_loop_Cons using True by (simp only: if_True)
  next
    case False
    have "dom (snd (snd (recalculate_loop G rn rs (cols, rts, dists))))
                 \<subseteq> set (fst (recalculate_loop G rn rs (cols, rts, dists)))"
      using Cons.prems by (rule Cons.IH)
    then show ?thesis
      unfolding recalculate_loop_Cons using False by (simp only: if_False)
  qed
qed

lemma loop_untouched:
  "n \<notin> r_name ` set rs \<Longrightarrow>
   snd (snd (recalculate_loop G rn rs (cols, rts, dists))) n = dists n
   \<and> fst (snd (recalculate_loop G rn rs (cols, rts, dists))) n = rts n"
  by (induction rs arbitrary: cols rts dists)
     (simp_all add: recalculate_loop_Cons del: recalculate_loop.simps(2))

lemma loop_value:
  "distinct (map r_name rs) \<Longrightarrow> r \<in> set rs \<Longrightarrow> accepted G rn r \<Longrightarrow>
   snd (snd (recalculate_loop G rn rs (cols, rts, dists))) (r_name r)
     = Some (length (p_path (pathFrom G rn r)))
   \<and> fst (snd (recalculate_loop G rn rs (cols, rts, dists))) (r_name r) = findRoute G (r_name r) rn"
proof (induction rs arbitrary: cols rts dists)
  case Nil
  then show ?case by simp
next
  case (Cons x rs)
  show ?case
  proof (cases "x = r")
    case True
    with Cons.prems have "r_name r \<notin> r_name ` set rs" by auto
    from loop_untouched [OF this] True Cons.prems(3) show ?thesis
      by (simp add: recalculate_loop_Cons del: recalculate_loop.simps(2))
  next
    case False
    with Cons.prems have "distinct (map r_name rs)" "r \<in> set rs" by auto
    from Cons.IH [OF this Cons.prems(3)] show ?thesis
      by (simp add: recalculate_loop_Cons del: recalculate_loop.simps(2))
  qed
qed

lemma recalculateColonies_colonies:
  "colonies (recalculateColonies G pub j rn m)
     = map r_name (filter (\<lambda>r. inRange G rn r \<and> accepted G rn r) (getAllColonyRooms G))"
proof -
  let ?rs = "filter (\<lambda>room. getRoomLinearDistance G (r_name room) rn \<le> MAX_LINEAR_DISTANCE)
               (getAllColonyRooms G)"
  obtain cols rts dists where l: "recalculate_loop G rn ?rs ([], Map.empty, Map.empty) = (cols, rts, dists)"
    by (cases "recalculate_loop G rn ?rs ([], Map.empty, Map.empty)")
  have "cols = map r_name (filter (accepted G rn) ?rs)"
    using loop_colonies [of G rn ?rs "[]" Map.empty Map.empty] by (simp add: l)
  also have "\<dots> = map r_name (filter (\<lambda>r. inRange G rn r \<and> accepted G rn r) (getAllColonyRooms G))"
    by (simp add: inRange_def MAX_LINEAR_DISTANCE_def conj_commute)
  finally show ?thesis
    by (simp add: recalculateColonies_def Let_def l)
qed

lemma recalculateColonies_fields:
  "expiration (recalculateColonies G pub j rn m)
     = int (g_time G) + int (if pub then 2000 else 1000) + max (- 25) (min 25 j)"
  "colonies (recalculateColonies G pub j rn m) = colonies (recalculateColonies G pub' j' rn m')"
  "distances (recalculateColonies G pub j rn m) = distances (recalculateColonies G pub' j' rn m')"
  "routes (recalculateColonies G pub j rn m) = routes (recalculateColonies G pub' j' rn m')"
  by (auto simp: recalculateColonies_def Let_def getCacheExpiration_def DEFAULT_RECACHE_TIME_def
        split: prod.splits)

lemma recalculateColonies_dom:
  "dom (distances (recalculateColonies G pub j rn m)) \<subseteq> set (colonies (recalculateColonies G pub j rn m))"
  "dom (routes (recalculateColonies G pub j rn m)) \<subseteq> set (colonies (recalculateColonies G pub j rn m))"
proof -
  let ?rs = "filter (\<lambda>room. getRoomLinearDistance G (r_name room) rn \<le> MAX_LINEAR_DISTANCE)
               (getAllColonyRooms G)"
  obtain cols rts dists where l: "recalculate_loop G rn ?rs ([], Map.empty, Map.empty) = (cols, rts, dists)"
    by (cases "recalculate_loop G rn ?rs ([], Map.empty, Map.empty)")
  have "dom dists \<subseteq> set cols"
    using loop_distances_dom [of Map.empty "[]" G rn ?rs Map.empty] by (simp add: l)
  moreover have "dom rts \<subseteq> set cols"
    using loop_routes_dom [of Map.empty "[]" G rn ?rs Map.empty] by (simp add: l)
  ultimately show
    "dom (distances (recalculateColonies G pub j rn m)) \<subseteq> set (colonies (recalculateColonies G pub j rn m))"
    "dom (routes (recalculateColonies G pub j rn m)) \<subseteq> set (colonies (recalculateColonies G pub j rn m))"
    by (simp_all add: recalculateColonies_def Let_def l)
qed

lemma recalculateColonies_value:
  assumes "distinct (map r_name (getAllColonyRooms G))" "r \<in> set (getAllColonyRooms G)"
    "inRange G rn r" "accepted G rn r"
  shows "distances (recalculateColonies G pub j rn m) (r_name r) = Some (length (p_path (pathFrom G rn r)))"
    and "routes (recalculateColonies G pub j rn m) (r_name r) = findRoute G (r_name r) rn"
proof -
  let ?rs = "filter (\<lambda>room. getRoomLinearDistance G (r_name room) rn \<le> MAX_LINEAR_DISTANCE) (getAllColonyRooms G)"
  have d: "distinct (map r_name ?rs)" using assms(1) by (simp add: distinct_map_filter)
  have i: "r \<in> set ?rs" using assms(2,3) by (simp add: inRange_def MAX_LINEAR_DISTANCE_def)
  from loop_value [OF d i assms(4), of "[]" Map.empty Map.empty]
  show "distances (recalculateColonies G pub j rn m) (r_name r) = Some (length (p_path (pathFrom G rn r)))"
    and "routes (recalculateColonies G pub j rn m) (r_name r) = findRoute G (r_name r) rn"
    by (auto simp: recalculateColonies_def Let_def split: prod.splits)
qed

lemma new_SpawnGroup_memory:
  "sg_memory (new_SpawnGroup G pub j ini st stored) =
     (if expiration stored \<le> int (g_time G)
      then recalculateColonies G pub j (pos_roomName (i_pos ini)) stored
      else stored)"
  by (simp add: new_SpawnGroup_def Let_def)

lemma reachable_inv:
  "reachable m \<Longrightarrow> dom (distances m) \<subseteq> set (colonies m) \<and> dom (routes m) \<subseteq> set (colonies m)"
proof (induction rule: reachable.induct)
  case reach_defaults
  show ?case by (simp add: SpawnGroupMemoryDefaults_def)
next
  case (reach_construct m G public jitter initializer settings)
  then show ?case
    using recalculateColonies_dom [of G public jitter "pos_roomName (i_pos initializer)" m]
    by (simp add: new_SpawnGroup_memory)
next
  case (reach_refresh m sg)
  then show ?case by (simp add: refresh_def)
next
  case (reach_recalculate m G public jitter roomName)
  show ?case using recalculateColonies_dom [of G public jitter roomName m] by simp
qed


lemma constructed_memory_eq:
  "constructed_memory G pub j ini st stored =
     (if expiration stored \<le> int (g_time G)
      then recalculateColonies G pub j (pos_roomName (i_pos ini)) stored
      else stored)"
  by (simp add: constructed_memory_def new_SpawnGroup_memory)

lemma distinct_names_eq:
  "distinct (map r_name rs) \<Longrightarrow> r \<in> set rs \<Longrightarrow> r' \<in> set rs \<Longrightarrow> r_name r' = r_name r \<Longrightarrow> r' = r"
  by (meson distinct_map inj_onD)

text \<open>
  C6. When the tick has reached the cached expiration, construction recomputes the cache:
  the colonies are the colony rooms within linear distance 10 that have a spawn, a route and
  a complete path of length at most 600, in the order of \<open>getAllColonyRooms()\<close>; room names
  being distinct, such a room is accepted if and only if the three conditions hold, and its
  distance is the length of its path; the expiration is the tick plus the base interval plus
  a jitter of at most 25 either way; the settings of the instance play no part; and recomputing once more on
  the same game gives the same colonies, distances and routes.
\<close>

theorem recalculation_on_construction:
  assumes e: "expiration stored \<le> int (g_time G)"
  shows "colonies (constructed_memory G pub j ini st stored)
           = map r_name (filter (\<lambda>r. inRange G (pos_roomName (i_pos ini)) r
                                   \<and> accepted G (pos_roomName (i_pos ini)) r) (getAllColonyRooms G))
    \<and> (distinct (map r_name (getAllColonyRooms G)) \<longrightarrow>
         (\<forall>r\<in>set (getAllColonyRooms G).
            inRange G (pos_roomName (i_pos ini)) r \<and> r_spawns r \<noteq> [] \<longrightarrow>
              (r_name r \<in> set (colonies (constructed_memory G pub j ini st stored))
                 \<longleftrightarrow> findRoute G (r_name r) (pos_roomName (i_pos ini)) \<noteq> None
                     \<and> \<not> incomplete (pathFrom G (pos_roomName (i_pos ini)) r)
                     \<and> length (p_path (pathFrom G (pos_roomName (i_pos ini)) r)) \<le> 600)
              \<and> (r_name r \<in> set (colonies (constructed_memory G pub j ini st stored)) \<longrightarrow>
                   distances (constructed_memory G pub j ini st stored) (r_name r)
                     = Some (length (p_path (pathFrom G (pos_roomName (i_pos ini)) r))))))
    \<and> expiration (constructed_memory G pub j ini st stored)
        = int (g_time G) + int (if pub then 2000 else 1000) + max (- 25) (min 25 j)
    \<and> \<bar>expiration (constructed_memory G pub j ini st stored)
         - (int (g_time G) + int (if pub then 2000 else 1000))\<bar> \<le> 25
    \<and> constructed_memory G pub j ini st' stored = constructed_memory G pub j ini st stored
    \<and> cached (recalculateColonies G pub j' (pos_roomName (i_pos ini))
                 (constructed_memory G pub j ini st stored))
        = cached (constructed_memory G pub j ini st stored)"
proof -
  let ?rn = "pos_roomName (i_pos ini)"
  let ?m = "constructed_memory G pub j ini st stored"
  have m: "?m = recalculateColonies G pub j ?rn stored"
    using e by (simp add: constructed_memory_eq)
  have c: "colonies ?m = map r_name (filter (\<lambda>r. inRange G ?rn r \<and> accepted G ?rn r) (getAllColonyRooms G))"
    by (simp only: m recalculateColonies_colonies)
  have x: "expiration ?m = int (g_time G) + int (if pub then 2000 else 1000) + max (- 25) (min 25 j)"
    by (simp only: m recalculateColonies_fields(1))
  have y: "\<bar>expiration ?m - (int (g_time G) + int (if pub then 2000 else 1000))\<bar> \<le> 25"
    unfolding x by simp
  have s: "constructed_memory G pub j ini st' stored = ?m"
    by (simp add: constructed_memory_eq)
  have i: "cached (recalculateColonies G pub j' ?rn ?m) = cached ?m"
    unfolding cached_def m
    using recalculateColonies_fields(2-4) [of G pub j' ?rn "recalculateColonies G pub j ?rn stored" pub j stored]
    by simp
  have d: "(r_name r \<in> set (colonies ?m)
                 \<longleftrightarrow> findRoute G (r_name r) ?rn \<noteq> None
                     \<and> \<not> incomplete (pathFrom G ?rn r)
                     \<and> length (p_path (pathFrom G ?rn r)) \<le> 600)
              \<and> (r_name r \<in> set (colonies ?m) \<longrightarrow>
                   distances ?m (r_name r) = Some (length (p_path (pathFrom G ?rn r))))"
    if dis: "distinct (map r_name (getAllColonyRooms G))" and r: "r \<in> set (getAllColonyRooms G)"
      and ir: "inRange G ?rn r" and sp: "r_spawns r \<noteq> []" for r
  proof -
    have a: "r_name r \<in> set (colonies ?m) \<longleftrightarrow> accepted G ?rn r"
    proof
      assume "r_name r \<in> set (colonies ?m)"
      then obtain r' where r': "r' \<in> set (getAllColonyRooms G)" "accepted G ?rn r'" "r_name r' = r_name r"
        unfolding c by auto
      with distinct_names_eq [OF dis r] have "r' = r" by blast
      with r' show "accepted G ?rn r" by simp
    next
      assume "accepted G ?rn r"
      with r ir show "r_name r \<in> set (colonies ?m)" unfolding c by auto
    qed
    have v: "distances ?m (r_name r) = Some (length (p_path (pathFrom G ?rn r)))" if "accepted G ?rn r"
      unfolding m using dis r ir that by (rule recalculateColonies_value(1))
    show ?thesis using a v sp by (auto simp: accepted_def)
  qed
  show ?thesis using c x y s i d by blast
qed

text \<open>
  C9. In every memory state reached from the defaults by construction, refresh and
  recalculation, the keys of \<open>distances\<close> and of \<open>routes\<close> are among \<open>colonies\<close>. A
  recalculation replaces the three together: what it leaves does not depend on what was
  there before, and construction leaves either all three as they were or all three
  recomputed.
\<close>

theorem cache_keys_within_colonies:
  "(reachable m \<longrightarrow> dom (distances m) \<subseteq> set (colonies m) \<and> dom (routes m) \<subseteq> set (colonies m))
   \<and> cached (recalculateColonies G pub j rn m) = cached (recalculateColonies G pub j rn SpawnGroupMemoryDefaults)
   \<and> dom (distances (recalculateColonies G pub j rn m)) \<subseteq> set (colonies (recalculateColonies G pub j rn m))
   \<and> dom (routes (recalculateColonies G pub j rn m)) \<subseteq> set (colonies (recalculateColonies G pub j rn m))
   \<and> (cached (constructed_memory G pub j ini st m) = cached m
      \<or> cached (constructed_memory G pub j ini st m)
          = cached (recalculateColonies G pub j (pos_roomName (i_pos ini)) SpawnGroupMemoryDefaults))"
proof -
  have a: "cached (recalculateColonies G pub j r m') = cached (recalculateColonies G pub j r SpawnGroupMemoryDefaults)"
    for r m'
    unfolding cached_def
    using recalculateColonies_fields(2-4) [of G pub j r m' pub j SpawnGroupMemoryDefaults] by simp
  have b: "cached (constructed_memory G pub j ini st m) = cached m
      \<or> cached (constructed_memory G pub j ini st m)
          = cached (recalculateColonies G pub j (pos_roomName (i_pos ini)) SpawnGroupMemoryDefaults)"
    using a [of "pos_roomName (i_pos ini)" m] by (simp add: constructed_memory_eq)
  show ?thesis
    using reachable_inv [of m] a [of rn m] b recalculateColonies_dom [of G pub j rn m] by blast
qed


subsection \<open>Assignment of requests\<close>

lemma minBy_step_cases:
  "minBy_step f x best = best
   \<or> (\<exists>v. f x = Some v \<and> minBy_step f x best = Some (x, v)
          \<and> (\<forall>b bv. best = Some (b, bv) \<longrightarrow> v < bv))"
  by (cases "f x"; cases best) (auto simp: minBy_step_def split: if_splits)

lemma minBy_step_le:
  "f x = Some v \<Longrightarrow> \<exists>b bv. minBy_step f x best = Some (b, bv) \<and> bv \<le> v"
  by (cases best) (auto simp: minBy_step_def)

lemma minBy_step_None: "minBy_step f x best = None \<Longrightarrow> best = None \<and> f x = None"
  by (cases "f x"; cases best) (auto simp: minBy_step_def split: if_splits)

lemma minBy_loop_keyed:
  "minBy_loop xs f best = Some (m, mv) \<Longrightarrow> (\<forall>b bv. best = Some (b, bv) \<longrightarrow> f b = Some bv)
    \<Longrightarrow> f m = Some mv"
proof (induction xs arbitrary: best)
  case Nil
  then show ?case by simp
next
  case (Cons x xs)
  from Cons.prems(1) have l: "minBy_loop xs f (minBy_step f x best) = Some (m, mv)" by simp
  have "\<forall>b bv. minBy_step f x best = Some (b, bv) \<longrightarrow> f b = Some bv"
    using minBy_step_cases [of f x best] Cons.prems(2) by auto
  with l show ?case by (rule Cons.IH)
qed

lemma minBy_loop_member:
  "minBy_loop xs f best = Some (m, mv) \<Longrightarrow> m \<in> set xs \<or> best = Some (m, mv)"
proof (induction xs arbitrary: best)
  case Nil
  then show ?case by simp
next
  case (Cons x xs)
  from Cons.prems have l: "minBy_loop xs f (minBy_step f x best) = Some (m, mv)" by simp
  from Cons.IH [OF l] have "m \<in> set xs \<or> minBy_step f x best = Some (m, mv)" .
  then show ?case
    using minBy_step_cases [of f x best] by auto
qed

lemma minBy_loop_le_best:
  "minBy_loop xs f (Some (b, bv)) = Some (m, mv) \<Longrightarrow> mv \<le> bv"
proof (induction xs arbitrary: b bv)
  case Nil
  then show ?case by simp
next
  case (Cons x xs)
  from Cons.prems have l: "minBy_loop xs f (minBy_step f x (Some (b, bv))) = Some (m, mv)" by simp
  from minBy_step_cases [of f x "Some (b, bv)"]
  show ?case
  proof
    assume "minBy_step f x (Some (b, bv)) = Some (b, bv)"
    with l have "minBy_loop xs f (Some (b, bv)) = Some (m, mv)" by simp
    then show ?thesis by (rule Cons.IH)
  next
    assume "\<exists>v. f x = Some v \<and> minBy_step f x (Some (b, bv)) = Some (x, v)
          \<and> (\<forall>b' bv'. Some (b, bv) = Some (b', bv') \<longrightarrow> v < bv')"
    then obtain v where s: "minBy_step f x (Some (b, bv)) = Some (x, v)" and v: "v < bv" by blast
    from l s have "minBy_loop xs f (Some (x, v)) = Some (m, mv)" by simp
    then have "mv \<le> v" by (rule Cons.IH)
    with v show ?thesis by simp
  qed
qed

lemma minBy_loop_least:
  "minBy_loop xs f best = Some (m, mv) \<Longrightarrow> x \<in> set xs \<Longrightarrow> f x = Some v \<Longrightarrow> mv \<le> v"
proof (induction xs arbitrary: best)
  case Nil
  then show ?case by simp
next
  case (Cons y ys)
  from Cons.prems(1) have l: "minBy_loop ys f (minBy_step f y best) = Some (m, mv)" by simp
  show ?case
  proof (cases "x \<in> set ys")
    case True
    from Cons.IH [OF l True Cons.prems(3)] show ?thesis .
  next
    case False
    with Cons.prems(2) have xy: "x = y" by simp
    from Cons.prems(3) have "f y = Some v" unfolding xy .
    then have "\<exists>b bv. minBy_step f y best = Some (b, bv) \<and> bv \<le> v"
      by (rule minBy_step_le)
    then obtain b bv where s: "minBy_step f y best = Some (b, bv)" and le: "bv \<le> v"
      by blast
    from l s have "minBy_loop ys f (Some (b, bv)) = Some (m, mv)" by simp
    then have "mv \<le> bv" by (rule minBy_loop_le_best)
    with le show ?thesis by simp
  qed
qed

lemma minBy_loop_None:
  "minBy_loop xs f best = None \<Longrightarrow> best = None \<and> (\<forall>x\<in>set xs. f x = None)"
proof (induction xs arbitrary: best)
  case Nil
  then show ?case by simp
next
  case (Cons x xs)
  from Cons.prems have "minBy_loop xs f (minBy_step f x best) = None" by simp
  from Cons.IH [OF this] have "minBy_step f x best = None" "\<forall>x\<in>set xs. f x = None" by simp_all
  with minBy_step_None [of f x best] show ?case by simp
qed

lemma minBy_Some:
  "minBy xs f = Some m \<Longrightarrow>
     m \<in> set xs \<and> (\<exists>mv. f m = Some mv \<and> (\<forall>x\<in>set xs. \<forall>v. f x = Some v \<longrightarrow> mv \<le> v))"
proof -
  assume "minBy xs f = Some m"
  then obtain mv where l: "minBy_loop xs f None = Some (m, mv)"
    by (auto simp: minBy_def)
  from minBy_loop_member [OF l] have "m \<in> set xs" by simp
  moreover from minBy_loop_keyed [OF l] have "f m = Some mv" by simp
  moreover have "\<forall>x\<in>set xs. \<forall>v. f x = Some v \<longrightarrow> mv \<le> v"
    using minBy_loop_least [OF l] by blast
  ultimately show ?thesis by blast
qed

lemma minBy_None: "minBy xs f = None \<Longrightarrow> \<forall>x\<in>set xs. f x = None"
  using minBy_loop_None [of xs f None] by (simp add: minBy_def)

lemma minBy_Nil: "minBy [] f = None"
  by (simp add: minBy_def)

lemma init_request_eq:
  "init_request bodyCost h_enqueue sg request (hs, log) =
     (case minBy (affordable (bodyCost (req_generateBody request (sg_energyCapacityAvailable sg))) hs)
             (\<lambda>(name, h). map_option (\<lambda>d. h_nextAvailability h + d) (distanceTo (sg_memory sg) h)) of
        Some (best, _) \<Rightarrow>
          (map (\<lambda>(name, h). if name = best then (name, h_enqueue request h) else (name, h)) hs, log)
      | None \<Rightarrow> (hs, log @ [warning request sg]))"
  by (simp add: init_request_def affordable_def Let_def)

text \<open>
  The body of the loop, for one request and any hatcheries. Take the producers whose energy
  capacity covers the cost of the request's largest body. When there is none, the hatcheries
  are left as they are and exactly one warning, naming the role and the anchor room, is
  logged. When some of them have a cached distance, the request is handed, through the
  hatchery's \<open>enqueue\<close>, to one of those whose \<open>nextAvailability + cachedDistance + 25\<close> is
  least, no other hatchery changes, and nothing is logged. Those with a cached distance are
  all of them when every one has a cached distance.
\<close>

theorem request_goes_to_least_wait:
  "(affordable (bodyCost (req_generateBody request (sg_energyCapacityAvailable sg))) hs = [] \<longrightarrow>
      init_request bodyCost h_enqueue sg request (hs, log)
        = (hs, log @ [''Could not enqueue creep '' @ req_role request
                        @ '' from spawnGroup in '' @ sg_roomName sg]))
   \<and> (cachedOnly (sg_memory sg)
         (affordable (bodyCost (req_generateBody request (sg_energyCapacityAvailable sg))) hs) \<noteq> [] \<longrightarrow>
      (\<exists>(best, hb)\<in>set (cachedOnly (sg_memory sg)
            (affordable (bodyCost (req_generateBody request (sg_energyCapacityAvailable sg))) hs)).
          (\<forall>(name, h)\<in>set (cachedOnly (sg_memory sg)
                (affordable (bodyCost (req_generateBody request (sg_energyCapacityAvailable sg))) hs)).
              waitCost (sg_memory sg) hb \<le> waitCost (sg_memory sg) h)
          \<and> init_request bodyCost h_enqueue sg request (hs, log)
              = (map (\<lambda>(name, h). if name = best then (name, h_enqueue request h) else (name, h)) hs,
                 log)))
   \<and> ((\<forall>(name, h)\<in>set (affordable (bodyCost (req_generateBody request (sg_energyCapacityAvailable sg))) hs).
          distances (sg_memory sg) (h_roomName h) \<noteq> None) \<longrightarrow>
       cachedOnly (sg_memory sg)
         (affordable (bodyCost (req_generateBody request (sg_energyCapacityAvailable sg))) hs)
       = affordable (bodyCost (req_generateBody request (sg_energyCapacityAvailable sg))) hs)"
proof (intro conjI impI)
  let ?ok = "affordable (bodyCost (req_generateBody request (sg_energyCapacityAvailable sg))) hs"
  let ?use = "cachedOnly (sg_memory sg) ?ok"
  let ?key = "\<lambda>(name, h). map_option (\<lambda>d. h_nextAvailability h + d) (distanceTo (sg_memory sg) h)"
  have key: "?key (n, h) = Some (waitCost (sg_memory sg) h)" if "(n, h) \<in> set ?use" for n h
    using that by (auto simp: distanceTo_def waitCost_def cachedOnly_def)
  have nokey: "(n, h) \<in> set ?use" if "(n, h) \<in> set ?ok" "?key (n, h) = Some v" for n h v
    using that by (auto simp: distanceTo_def cachedOnly_def)
  {
    assume "?ok = []"
    then show "init_request bodyCost h_enqueue sg request (hs, log)
        = (hs, log @ [''Could not enqueue creep '' @ req_role request
                        @ '' from spawnGroup in '' @ sg_roomName sg])"
      by (simp add: init_request_eq minBy_Nil warning_def)
  }
  {
    assume a: "?use \<noteq> []"
    have "minBy ?ok ?key \<noteq> None"
    proof
      assume "minBy ?ok ?key = None"
      from minBy_None [OF this] have n: "\<forall>x\<in>set ?ok. ?key x = None" .
      from a obtain p where p: "p \<in> set ?use" by (cases ?use) auto
      obtain n h where nh: "p = (n, h)" by (cases p)
      from p have "p \<in> set ?ok" by (simp add: cachedOnly_def)
      with n have "?key p = None" by blast
      with p nh key [of n h] show False by simp
    qed
    then obtain best hb where b: "minBy ?ok ?key = Some (best, hb)" by auto
    from minBy_Some [OF b] obtain mv where
      m: "(best, hb) \<in> set ?ok" and k: "?key (best, hb) = Some mv"
      and l: "\<forall>x\<in>set ?ok. \<forall>v. ?key x = Some v \<longrightarrow> mv \<le> v"
      by blast
    from nokey [OF m k] have mu: "(best, hb) \<in> set ?use" .
    from k key [OF mu] have mv: "mv = waitCost (sg_memory sg) hb" by (simp only: option.inject)
    have least: "\<forall>(name, h)\<in>set ?use. waitCost (sg_memory sg) hb \<le> waitCost (sg_memory sg) h"
    proof (clarify)
      fix n h assume i: "(n, h) \<in> set ?use"
      then have "(n, h) \<in> set ?ok" by (simp add: cachedOnly_def)
      with l key [OF i] show "waitCost (sg_memory sg) hb \<le> waitCost (sg_memory sg) h"
        unfolding mv by blast
    qed
    have r: "init_request bodyCost h_enqueue sg request (hs, log)
              = (map (\<lambda>(name, h). if name = best then (name, h_enqueue request h) else (name, h)) hs, log)"
      by (simp add: init_request_eq b)
    from mu least r
    show "\<exists>(best, hb)\<in>set ?use.
          (\<forall>(name, h)\<in>set ?use. waitCost (sg_memory sg) hb \<le> waitCost (sg_memory sg) h)
          \<and> init_request bodyCost h_enqueue sg request (hs, log)
              = (map (\<lambda>(name, h). if name = best then (name, h_enqueue request h) else (name, h)) hs,
                 log)"
      by blast
  }
  {
    assume "\<forall>(name, h)\<in>set ?ok. distances (sg_memory sg) (h_roomName h) \<noteq> None"
    then show "?use = ?ok"
      by (auto simp: cachedOnly_def intro!: filter_True)
  }
qed

text \<open>
  C10. \<open>init\<close> does not read \<open>settings.flexibleEnergy\<close>: changing it in a spawn group, or in
  the settings the group is constructed from, changes neither the hatcheries after \<open>init\<close> nor
  the warnings.
\<close>

theorem init_ignores_flexibleEnergy:
  "sg_init bodyCost h_enqueue overmind_colonies
       (sg\<lparr>sg_settings := (sg_settings sg)\<lparr>flexibleEnergy := b\<rparr>\<rparr>) log
     = sg_init bodyCost h_enqueue overmind_colonies sg log
   \<and> sg_init bodyCost h_enqueue overmind_colonies
       (fold enqueue rs (new_SpawnGroup G pub j ini (st\<lparr>p_flexibleEnergy := b1\<rparr>) stored)) log
     = sg_init bodyCost h_enqueue overmind_colonies
       (fold enqueue rs (new_SpawnGroup G pub j ini (st\<lparr>p_flexibleEnergy := b2\<rparr>) stored)) log"
proof
  have i: "init_request bodyCost h_enqueue (sg\<lparr>sg_settings := s\<rparr>) = init_request bodyCost h_enqueue sg"
    for s sg
  proof -
    have w: "warning r (sg\<lparr>sg_settings := s\<rparr>) = warning r sg" for r
      by (simp add: warning_def)
    show ?thesis
      by (intro ext) (simp add: init_request_def w split: prod.splits option.splits)
  qed
  show "sg_init bodyCost h_enqueue overmind_colonies
       (sg\<lparr>sg_settings := (sg_settings sg)\<lparr>flexibleEnergy := b\<rparr>\<rparr>) log
     = sg_init bodyCost h_enqueue overmind_colonies sg log"
    by (simp add: sg_init_def i)
  have q: "fold enqueue rs sg = sg\<lparr>sg_requests := sg_requests sg @ rs\<rparr>" for sg
    by (induction rs arbitrary: sg) (simp_all add: enqueue_def)
  have f: "fold enqueue rs (sg\<lparr>sg_settings := s\<rparr>) = (fold enqueue rs sg)\<lparr>sg_settings := s\<rparr>" for s sg
    by (simp add: q)
  let ?n1 = "new_SpawnGroup G pub j ini (st\<lparr>p_flexibleEnergy := b1\<rparr>) stored"
  let ?n2 = "new_SpawnGroup G pub j ini (st\<lparr>p_flexibleEnergy := b2\<rparr>) stored"
  have "?n1 = ?n2\<lparr>sg_settings := sg_settings ?n1\<rparr>"
    by (simp add: new_SpawnGroup_def Let_def defaults_def cong: option.case_cong)
  then have "fold enqueue rs ?n1 = (fold enqueue rs ?n2)\<lparr>sg_settings := sg_settings ?n1\<rparr>"
    using f [of "sg_settings ?n1" ?n2] by simp
  then show "sg_init bodyCost h_enqueue overmind_colonies (fold enqueue rs ?n1) log
     = sg_init bodyCost h_enqueue overmind_colonies (fold enqueue rs ?n2) log"
    by (simp add: sg_init_def i)
qed


text \<open>
  \<open>init\<close> runs that body once for each buffered request, in the order of the buffer, on the
  hatcheries of the group's colonies.
\<close>

lemma init_request_requests:
  "init_request bodyCost h_enqueue (sg\<lparr>sg_requests := rs\<rparr>) = init_request bodyCost h_enqueue sg"
proof -
  have w: "warning r (sg\<lparr>sg_requests := rs\<rparr>) = warning r sg" for r
    by (simp add: warning_def)
  show ?thesis
    by (intro ext) (simp add: init_request_def w split: prod.splits option.splits)
qed

lemma sg_init_no_requests:
  "sg_init bodyCost h_enqueue cols (sg\<lparr>sg_requests := []\<rparr>) log
     = (hatcheriesOf cols (sg_colonyNames sg), log)"
  by (simp add: sg_init_def)

lemma sg_init_snoc:
  "sg_init bodyCost h_enqueue cols (sg\<lparr>sg_requests := rs @ [r]\<rparr>) log
     = init_request bodyCost h_enqueue sg r
         (sg_init bodyCost h_enqueue cols (sg\<lparr>sg_requests := rs\<rparr>) log)"
  by (simp add: sg_init_def init_request_requests)

text \<open>
  Every colony a constructed group may use has a cached distance. A refresh takes the memory
  anew and keeps the colonies of the group.
\<close>

lemma constructed_colonyNames_cached:
  "n \<in> set (sg_colonyNames (new_SpawnGroup G pub j ini st stored))
    \<Longrightarrow> distances (sg_memory (new_SpawnGroup G pub j ini st stored)) n \<noteq> None"
  by (auto simp: new_SpawnGroup_def Let_def split: option.splits)

lemma refresh_keeps_colonyNames:
  "sg_colonyNames (refresh stored sg) = sg_colonyNames sg"
  "sg_energyCapacityAvailable (refresh stored sg) = sg_energyCapacityAvailable sg"
  "sg_memory (refresh stored sg) = stored"
  by (simp_all add: refresh_def)

subsection \<open>The spawn group on concrete inputs\<close>

lemmas spawngroup_eval = constructed_memory_def new_SpawnGroup_def recalculateColonies_def
  SpawnGroupMemoryDefaults_def MAX_LINEAR_DISTANCE_def MAX_PATH_DISTANCE_def
  DEFAULT_RECACHE_TIME_def getCacheExpiration_def defaults_def defaultSettings_def Let_def
  max_list_def cached_def

text \<open>
  C6 at a concrete input: of three colony rooms only W1N1 is cached, at distance 42, and the
  cache expires at tick 2003.
\<close>

theorem recalculation_on_construction_witness:
  "expiration SpawnGroupMemoryDefaults \<le> int (g_time gameX)
   \<and> distinct (map r_name (getAllColonyRooms gameX))
   \<and> colonies (constructed_memory gameX False 3 iniX noSettings SpawnGroupMemoryDefaults) = [''W1N1'']
   \<and> distances (constructed_memory gameX False 3 iniX noSettings SpawnGroupMemoryDefaults) ''W1N1'' = Some 42
   \<and> distances (constructed_memory gameX False 3 iniX noSettings SpawnGroupMemoryDefaults) ''W2N2'' = None
   \<and> expiration (constructed_memory gameX False 3 iniX noSettings SpawnGroupMemoryDefaults) = 2003"
proof -
  have h: "expiration SpawnGroupMemoryDefaults \<le> int (g_time gameX)"
    by (simp add: spawngroup_eval)
  have d: "distinct (map r_name (getAllColonyRooms gameX))" by simp
  have v: "distances (constructed_memory gameX False 3 iniX noSettings SpawnGroupMemoryDefaults) ''W1N1'' = Some 42"
    "distances (constructed_memory gameX False 3 iniX noSettings SpawnGroupMemoryDefaults) ''W2N2'' = None"
    by (simp_all add: spawngroup_eval)
  have c: "colonies (constructed_memory gameX False 3 iniX noSettings SpawnGroupMemoryDefaults) = [''W1N1'']"
    using recalculation_on_construction [OF h, of False 3 iniX noSettings]
    by (simp add: inRange_def accepted_def pathFrom_def)
  have x: "expiration (constructed_memory gameX False 3 iniX noSettings SpawnGroupMemoryDefaults) = 2003"
    using recalculation_on_construction [OF h, of False 3 iniX noSettings] by simp
  show ?thesis using h d v c x by blast
qed

text \<open>C9 at a concrete input: the memory that the first construction leaves.\<close>

theorem cache_keys_witness:
  "reachable (constructed_memory gameX False 3 iniX noSettings SpawnGroupMemoryDefaults)
   \<and> colonies (constructed_memory gameX False 3 iniX noSettings SpawnGroupMemoryDefaults) = [''W1N1'']
   \<and> dom (distances (constructed_memory gameX False 3 iniX noSettings SpawnGroupMemoryDefaults))
       \<subseteq> {''W1N1''}
   \<and> dom (routes (constructed_memory gameX False 3 iniX noSettings SpawnGroupMemoryDefaults))
       \<subseteq> {''W1N1''}"
proof -
  let ?m = "constructed_memory gameX False 3 iniX noSettings SpawnGroupMemoryDefaults"
  have r: "reachable ?m"
    unfolding constructed_memory_def by (rule reach_construct) (rule reach_defaults)
  have c: "colonies ?m = [''W1N1'']" by (simp add: spawngroup_eval)
  from cache_keys_within_colonies [of ?m] r c
  have "dom (distances ?m) \<subseteq> {''W1N1''} \<and> dom (routes ?m) \<subseteq> {''W1N1''}" by simp
  with r c show ?thesis by blast
qed

text \<open>
  The body of the loop at concrete inputs: of the producers at (0, 50), (10, 20) and (5, 5)
  the third gets the request; a request that none can afford is dropped with one warning.
\<close>

theorem request_goes_to_least_wait_witness:
  "affordable (bodyCost50 (req_generateBody requestSmall (sg_energyCapacityAvailable groupX)))
     [(''W1N1'', hatcheryA), (''W2N2'', hatcheryB), (''W3N3'', hatcheryC)]
     = [(''W1N1'', hatcheryA), (''W2N2'', hatcheryB), (''W3N3'', hatcheryC)]
   \<and> init_request bodyCost50 appendToQueue groupX requestSmall
       ([(''W1N1'', hatcheryA), (''W2N2'', hatcheryB), (''W3N3'', hatcheryC)], [])
     = ([(''W1N1'', hatcheryA), (''W2N2'', hatcheryB),
         (''W3N3'', hatcheryC\<lparr>h_queue := [requestSmall]\<rparr>)], [])
   \<and> affordable (bodyCost50 (req_generateBody requestHuge (sg_energyCapacityAvailable groupX)))
       [(''W1N1'', hatcheryA), (''W2N2'', hatcheryB), (''W3N3'', hatcheryC)] = []
   \<and> init_request bodyCost50 appendToQueue groupX requestHuge
       ([(''W1N1'', hatcheryA), (''W2N2'', hatcheryB), (''W3N3'', hatcheryC)], [])
     = ([(''W1N1'', hatcheryA), (''W2N2'', hatcheryB), (''W3N3'', hatcheryC)],
        [''Could not enqueue creep hydralisk from spawnGroup in W5N5''])"
proof -
  let ?hs = "[(''W1N1'', hatcheryA), (''W2N2'', hatcheryB), (''W3N3'', hatcheryC)]"
  have a: "affordable (bodyCost50 (req_generateBody requestSmall (sg_energyCapacityAvailable groupX))) ?hs
             = ?hs"
    by (simp add: affordable_def)
  have b: "affordable (bodyCost50 (req_generateBody requestHuge (sg_energyCapacityAvailable groupX))) ?hs
             = []"
    by (simp add: affordable_def)
  have c: "init_request bodyCost50 appendToQueue groupX requestHuge (?hs, [])
     = (?hs, [''Could not enqueue creep hydralisk from spawnGroup in W5N5''])"
    using request_goes_to_least_wait [of bodyCost50 requestHuge groupX ?hs appendToQueue "[]"]
    by (simp add: affordable_def)
  have d: "init_request bodyCost50 appendToQueue groupX requestSmall (?hs, [])
     = ([(''W1N1'', hatcheryA), (''W2N2'', hatcheryB),
         (''W3N3'', hatcheryC\<lparr>h_queue := [requestSmall]\<rparr>)], [])"
    using request_goes_to_least_wait [of bodyCost50 requestSmall groupX ?hs appendToQueue "[]"]
    by (simp add: affordable_def cachedOnly_def waitCost_def)
  show ?thesis using a b c d by blast
qed


end
